theory Spec2Isabelle
  imports Complex_Main "HOL-Library.Log_Nat"
begin

section \<open>The trading bot of \<^verbatim>\<open>src/main.py\<close>\<close>

text \<open>
  The class \<^verbatim>\<open>KrakenBot\<close> polls an exchange, forecasts the next closing price and turns
  the forecast into a market buy (with a stop-loss), a market sell, or nothing.

  Numbers: a Python float is a binary64 number, and every finite one is a rational, so the
  prices, balances and volumes of the model have type \<^typ>\<open>rat\<close>. The arithmetic of the
  code is binary64 arithmetic: each subtraction, multiplication and division returns the
  exact result rounded to the nearest binary64 number, a tie to the one with an even
  significand (\<open>fl\<close> below). A decimal literal of the code or of a JSON answer, such as
  \<^verbatim>\<open>0.0001\<close> or \<^verbatim>\<open>0.10\<close>, denotes \<open>fl\<close> of its decimal value. Comparisons, \<^verbatim>\<open>abs\<close>,
  \<^verbatim>\<open>min\<close> and \<^verbatim>\<open>max\<close> are exact. There are no infinities and no NaN in the model: the
  exchange and the forecaster return finite numbers, and \<open>fl\<close> keeps rounding on the grid of
  the largest binade where binary64 overflows, so that a result of magnitude \<open>2 ^ 1024\<close> or
  more in the model stands for an infinity of the code.
  The exchange is a state machine of unknown state \<open>'w\<close>: every query takes the state and
  returns a response with the next state. Everything observable that the bot does (queries
  with their responses, the window handed to the forecaster, rows appended to the CSV file,
  sleeping) is returned as a list of events, in program order. The timestamp column of the
  CSV file is wall-clock time and is left out of the rows; console output is not modelled.
  Every query is answered with a JSON document, the forecaster returns a price for every
  window, and appending to the CSV file succeeds: exceptions of the transport, of the
  ARIMA fit and of the file system are outside the model.
\<close>

subsection \<open>Data\<close>

datatype exception = IndexError | ZeroDivisionError

text \<open>A JSON answer of the exchange: the \<^verbatim>\<open>'error'\<close> list and the \<^verbatim>\<open>'result'\<close> payload.\<close>

datatype 'r response = Response (error: "string list") (result: 'r)

text \<open>One OHLC entry \<^verbatim>\<open>[time, open, high, low, close, vwap, volume, count]\<close>, prices
  already converted by \<^verbatim>\<open>float\<close>; \<^verbatim>\<open>d[4]\<close> is \<open>bar_close\<close>.\<close>

record bar =
  bar_time :: int
  bar_open :: rat
  bar_high :: rat
  bar_low :: rat
  bar_close :: rat
  bar_vwap :: rat
  bar_volume :: rat
  bar_count :: int

datatype side = Buy | Sell

datatype ordertype = Market | Stop_loss

text \<open>The parameters of an \<^verbatim>\<open>AddOrder\<close> call; a market order carries no price.\<close>

record order =
  order_pair :: string
  order_side :: side
  order_ordertype :: ordertype
  order_price :: "rat option"
  order_volume :: rat

text \<open>A row of the CSV file, without its timestamp.\<close>

record trade_record =
  row_predicted_price :: rat
  row_last_close :: rat
  row_difference :: rat
  row_action :: side
  row_volume :: rat
  row_expenditure :: rat
  row_profit :: rat
  row_usd_balance :: rat
  row_btc_balance :: rat

datatype event =
    Query_OHLC string nat "bar list response"
  | Query_Balance "(string \<times> rat) list response"
  | AddOrder order "(string \<times> string) list response"
  | Forecast "rat list"
  | Csv_row trade_record
  | Sleep nat

text \<open>The collaborators: the three exchange endpoints the bot uses and the ARIMA fit,
  a function of the closing prices it is given.\<close>

record 'w env =
  query_OHLC :: "string \<Rightarrow> nat \<Rightarrow> 'w \<Rightarrow> bar list response \<times> 'w"
  query_Balance :: "'w \<Rightarrow> (string \<times> rat) list response \<times> 'w"
  query_AddOrder :: "order \<Rightarrow> 'w \<Rightarrow> (string \<times> string) list response \<times> 'w"
  arima_forecast :: "rat list \<Rightarrow> rat"

text \<open>The fields of \<^verbatim>\<open>self\<close> (the API handle is the \<open>env\<close> above, the CSV file is the
  \<open>Csv_row\<close> events).\<close>

record KrakenBot =
  pair :: string
  lookback :: int
  max_usd_per_order :: rat
  sell_percentage :: rat
  stop_loss_pct :: rat
  usd_balance :: rat
  btc_balance :: rat

datatype status = Running | Returned | Raised exception

subsection \<open>Python primitives\<close>

text \<open>\<^verbatim>\<open>xs[i:]\<close>: a negative start counts from the end, and the start is clipped to the list.\<close>

definition slice_from :: "int \<Rightarrow> 'a list \<Rightarrow> 'a list" where
  "slice_from i xs =
     (let n = int (length xs);
          start = (if i < 0 then max (i + n) 0 else min i n)
      in drop (nat start) xs)"

text \<open>\<^verbatim>\<open>round(x)\<close> on an exact value: to the nearest integer, a tie to the even one.\<close>

definition round_half_even :: "rat \<Rightarrow> int" where
  "round_half_even x =
     (let f = \<lfloor>x\<rfloor>; r = x - of_int f
      in if r < 1 / 2 then f
         else if 1 / 2 < r then f + 1
         else if even f then f else f + 1)"

text \<open>\<open>ilog2 x\<close> is the binary exponent of a positive \<open>x\<close>: \<open>2 ^ ilog2 x \<le> x < 2 ^ (ilog2 x + 1)\<close>.\<close>

definition ilog2 :: "rat \<Rightarrow> int" where
  "ilog2 x = (if 1 \<le> x then bitlen \<lfloor>x\<rfloor> - 1 else - bitlen (\<lceil>1 / x\<rceil> - 1))"

text \<open>The spacing of the binary64 numbers around \<open>x\<close>: 52 fraction bits below the exponent
  of \<open>x\<close>, and the spacing \<open>2 ^ - 1074\<close> of the subnormal numbers below \<open>2 ^ - 1022\<close>.\<close>

definition ulp :: "rat \<Rightarrow> rat" where
  "ulp x = 2 powi (max (ilog2 \<bar>x\<bar>) (- 1022) - 52)"

text \<open>Rounding to the nearest binary64 number, ties to even.\<close>

definition fl :: "rat \<Rightarrow> rat" where
  "fl x = (if x = 0 then 0 else of_int (round_half_even (x / ulp x)) * ulp x)"

text \<open>\<^verbatim>\<open>a - b\<close>, \<^verbatim>\<open>a * b\<close> and \<^verbatim>\<open>a / b\<close> on floats (the caller of \<open>fdiv\<close> raises on a zero
  divisor).\<close>

definition fsub :: "rat \<Rightarrow> rat \<Rightarrow> rat" where
  "fsub a b = fl (a - b)"

definition fmul :: "rat \<Rightarrow> rat \<Rightarrow> rat" where
  "fmul a b = fl (a * b)"

definition fdiv :: "rat \<Rightarrow> rat \<Rightarrow> rat" where
  "fdiv a b = fl (a / b)"

text \<open>\<^verbatim>\<open>round(x, 1)\<close>: the exact value of \<open>x\<close> rounded to the nearest tenth, a tie to the
  even one, and the binary64 number nearest to that tenth.\<close>

definition round1 :: "rat \<Rightarrow> rat" where
  "round1 x = fl (of_int (round_half_even (x * 10)) / 10)"

text \<open>The literal \<^verbatim>\<open>0.0001\<close>.\<close>

definition dust :: rat where
  "dust = fl (1 / 10000)"

text \<open>\<^verbatim>\<open>d.get(k, 0)\<close> on the balance dictionary.\<close>

definition dict_get :: "(string \<times> rat) list \<Rightarrow> string \<Rightarrow> rat \<Rightarrow> rat" where
  "dict_get d k dflt = (case map_of d k of None \<Rightarrow> dflt | Some v \<Rightarrow> v)"

text \<open>\<^verbatim>\<open>if order_result:\<close> on what \<^verbatim>\<open>place_order\<close> returns: \<^verbatim>\<open>None\<close> and the empty
  dictionary are false.\<close>

definition truthy :: "(string \<times> string) list option \<Rightarrow> bool" where
  "truthy r = (case r of None \<Rightarrow> False | Some d \<Rightarrow> d \<noteq> [])"

subsection \<open>The methods of \<^verbatim>\<open>KrakenBot\<close>\<close>

definition fetch_data :: "'w env \<Rightarrow> KrakenBot \<Rightarrow> 'w \<Rightarrow> bar list option \<times> event list \<times> 'w" where
  "fetch_data api self w =
     (case query_OHLC api (pair self) 1 w of (ohlc, w') \<Rightarrow>
        (if error ohlc \<noteq> [] then None else Some (result ohlc),
         [Query_OHLC (pair self) 1 ohlc], w'))"

definition calculate_arima :: "'w env \<Rightarrow> bar list \<Rightarrow> rat \<times> event list" where
  "calculate_arima api data =
     (let closes = map bar_close data
      in (arima_forecast api closes, [Forecast closes]))"

definition get_balance :: "'w env \<Rightarrow> 'w \<Rightarrow> (rat \<times> rat) \<times> event list \<times> 'w" where
  "get_balance api w =
     (case query_Balance api w of (balance, w') \<Rightarrow>
        (if error balance \<noteq> [] then (0, 0)
         else (dict_get (result balance) ''ZUSD'' 0, dict_get (result balance) ''XXBT'' 0),
         [Query_Balance balance], w'))"

definition place_order ::
  "'w env \<Rightarrow> KrakenBot \<Rightarrow> side \<Rightarrow> rat \<Rightarrow> 'w \<Rightarrow> (string \<times> string) list option \<times> event list \<times> 'w" where
  "place_order api self order_type volume w =
     (let request = \<lparr>order_pair = pair self, order_side = order_type,
                     order_ordertype = Market, order_price = None, order_volume = volume\<rparr>
      in case query_AddOrder api request w of (response, w') \<Rightarrow>
           (if error response \<noteq> [] then None else Some (result response),
            [AddOrder request response], w'))"

definition place_stop_loss ::
  "'w env \<Rightarrow> KrakenBot \<Rightarrow> rat \<Rightarrow> rat \<Rightarrow> 'w \<Rightarrow> (string \<times> string) list option \<times> event list \<times> 'w" where
  "place_stop_loss api self stop_price0 volume w =
     (let stop_price = round1 stop_price0;
          request = \<lparr>order_pair = pair self, order_side = Sell,
                     order_ordertype = Stop_loss, order_price = Some stop_price,
                     order_volume = volume\<rparr>
      in case query_AddOrder api request w of (response, w') \<Rightarrow>
           (if error response \<noteq> [] then None else Some (result response),
            [AddOrder request response], w'))"

definition log_trade ::
  "'w env \<Rightarrow> KrakenBot \<Rightarrow> rat \<Rightarrow> rat \<Rightarrow> side \<Rightarrow> rat \<Rightarrow> rat \<Rightarrow> rat \<Rightarrow> 'w
     \<Rightarrow> event list \<times> KrakenBot \<times> 'w" where
  "log_trade api self predicted_price last_close action volume expenditure profit w =
     (let difference = fsub predicted_price last_close
      in case get_balance api w of ((usd, btc), es, w') \<Rightarrow>
           (es @ [Csv_row \<lparr>row_predicted_price = predicted_price, row_last_close = last_close,
                           row_difference = difference, row_action = action,
                           row_volume = volume, row_expenditure = expenditure,
                           row_profit = profit, row_usd_balance = usd,
                           row_btc_balance = btc\<rparr>],
            self\<lparr>usd_balance := usd, btc_balance := btc\<rparr>, w'))"

subsection \<open>One pass of the loop in \<^verbatim>\<open>run\<close>\<close>

text \<open>Lines 111 to 113: the volume of a buy, if one is placed. The caller has checked
  \<open>0 < usd_balance\<close>; a zero \<open>last_close\<close> raises.\<close>

definition buy_volume :: "KrakenBot \<Rightarrow> rat \<Rightarrow> rat \<Rightarrow> exception + rat option" where
  "buy_volume self usd last_close =
     (if last_close = 0 then Inl ZeroDivisionError
      else let max_volume = fdiv (max_usd_per_order self) last_close;
               volume = min max_volume (fdiv usd last_close)
           in if dust < volume then Inr (Some volume) else Inr None)"

text \<open>Lines 108 to 122.\<close>

definition buy_flow ::
  "'w env \<Rightarrow> KrakenBot \<Rightarrow> rat \<Rightarrow> rat \<Rightarrow> 'w \<Rightarrow> status \<times> event list \<times> KrakenBot \<times> 'w" where
  "buy_flow api self predicted_price last_close w =
     (case get_balance api w of ((usd, _), es1, w1) \<Rightarrow>
        if 0 < usd then
          (case buy_volume self usd last_close of
             Inl e \<Rightarrow> (Raised e, es1, self, w1)
           | Inr None \<Rightarrow> (Running, es1, self, w1)
           | Inr (Some volume) \<Rightarrow>
               (case place_order api self Buy volume w1 of (order_result, es2, w2) \<Rightarrow>
                  if truthy order_result then
                    (let expenditure = fmul volume last_close;
                         stop_price = round1 (fmul last_close (fsub 1 (stop_loss_pct self)))
                     in case place_stop_loss api self stop_price volume w2 of
                          (stop_loss_result, es3, w3) \<Rightarrow>
                            (case log_trade api self predicted_price last_close Buy volume
                                    expenditure 0 w3 of
                               (es4, self', w4) \<Rightarrow>
                                 (Running, es1 @ es2 @ es3 @ es4, self', w4)))
                  else (Running, es1 @ es2, self, w2)))
        else (Running, es1, self, w1))"

text \<open>Lines 128 to 130: the volume of a sell, if one is placed. The caller has checked
  that the balance is above the dust threshold.\<close>

definition sell_volume :: "KrakenBot \<Rightarrow> rat \<Rightarrow> rat option" where
  "sell_volume self btc =
     (let portion_volume = fmul btc (sell_percentage self);
          volume_to_sell = max (min portion_volume btc) dust
      in if dust < volume_to_sell then Some volume_to_sell else None)"

text \<open>Lines 125 to 137.\<close>

definition sell_flow ::
  "'w env \<Rightarrow> KrakenBot \<Rightarrow> rat \<Rightarrow> rat \<Rightarrow> 'w \<Rightarrow> status \<times> event list \<times> KrakenBot \<times> 'w" where
  "sell_flow api self predicted_price last_close w =
     (case get_balance api w of ((_, btc), es1, w1) \<Rightarrow>
        if dust < btc then
          (case sell_volume self btc of
             None \<Rightarrow> (Running, es1, self, w1)
           | Some volume_to_sell \<Rightarrow>
               (case place_order api self Sell volume_to_sell w1 of (order_result, es2, w2) \<Rightarrow>
                  if truthy order_result then
                    (let profit = fmul volume_to_sell last_close
                     in case log_trade api self predicted_price last_close Sell volume_to_sell
                               0 profit w2 of
                          (es3, self', w3) \<Rightarrow> (Running, es1 @ es2 @ es3, self', w3))
                  else (Running, es1 @ es2, self, w2)))
        else (Running, es1, self, w1))"

text \<open>Lines 93 to 141, the body of \<^verbatim>\<open>while True\<close>. \<open>Running\<close> means that the pass
  reached \<^verbatim>\<open>time.sleep\<close> and the loop goes on; \<^verbatim>\<open>data[-1]\<close> raises on an empty
  window, after the forecaster has been called.\<close>

definition run_cycle ::
  "'w env \<Rightarrow> KrakenBot \<Rightarrow> 'w \<Rightarrow> status \<times> event list \<times> KrakenBot \<times> 'w" where
  "run_cycle api self w =
     (case fetch_data api self w of
        (None, es0, w0) \<Rightarrow> (Returned, es0, self, w0)
      | (Some fetched, es0, w0) \<Rightarrow>
          (let data = slice_from (- lookback self) fetched
           in case calculate_arima api data of (predicted_price, esf) \<Rightarrow>
                if data = [] then (Raised IndexError, es0 @ esf, self, w0)
                else
                  (let last_close = bar_close (last data);
                       difference = \<bar>fsub predicted_price last_close\<bar>
                   in case
                        (if 15 < difference then
                           (if last_close < predicted_price then
                              buy_flow api self predicted_price last_close w0
                            else if predicted_price < last_close then
                              sell_flow api self predicted_price last_close w0
                            else (Running, [], self, w0))
                         else (Running, [], self, w0))
                      of (Running, es, self', w') \<Rightarrow>
                           (Running, es0 @ esf @ es @ [Sleep 3600], self', w')
                       | (st, es, self', w') \<Rightarrow> (st, es0 @ esf @ es, self', w'))))"

text \<open>The loop, for at most \<open>n\<close> passes: \<open>Running\<close> is returned when the \<open>n\<close> passes
  are over and the loop would go on.\<close>

fun run :: "nat \<Rightarrow> 'w env \<Rightarrow> KrakenBot \<Rightarrow> 'w \<Rightarrow> status \<times> event list \<times> KrakenBot \<times> 'w" where
  "run 0 api self w = (Running, [], self, w)"
| "run (Suc n) api self w =
     (case run_cycle api self w of
        (Running, es, self', w') \<Rightarrow>
          (case run n api self' w' of (st, es', self'', w'') \<Rightarrow> (st, es @ es', self'', w''))
      | (st, es, self', w') \<Rightarrow> (st, es, self', w'))"

subsection \<open>Reading a list of events\<close>

fun market_orders :: "event list \<Rightarrow> (order \<times> (string \<times> string) list response) list" where
  "market_orders [] = []"
| "market_orders (AddOrder r resp # es) =
     (if order_ordertype r = Market then (r, resp) # market_orders es else market_orders es)"
| "market_orders (_ # es) = market_orders es"

fun stop_orders :: "event list \<Rightarrow> (order \<times> (string \<times> string) list response) list" where
  "stop_orders [] = []"
| "stop_orders (AddOrder r resp # es) =
     (if order_ordertype r = Stop_loss then (r, resp) # stop_orders es else stop_orders es)"
| "stop_orders (_ # es) = stop_orders es"

fun csv_rows :: "event list \<Rightarrow> trade_record list" where
  "csv_rows [] = []"
| "csv_rows (Csv_row r # es) = r # csv_rows es"
| "csv_rows (_ # es) = csv_rows es"

fun forecast_windows :: "event list \<Rightarrow> rat list list" where
  "forecast_windows [] = []"
| "forecast_windows (Forecast xs # es) = xs # forecast_windows es"
| "forecast_windows (_ # es) = forecast_windows es"

text \<open>An order is accepted when the answer to it carries no error and a non-empty result
  (the order's description and transaction id): the test of \<^verbatim>\<open>if order_result:\<close>.\<close>

definition accepted :: "(string \<times> string) list response \<Rightarrow> bool" where
  "accepted resp = (error resp = [] \<and> result resp \<noteq> [])"

fun balance_queries :: "event list \<Rightarrow> (string \<times> rat) list response list" where
  "balance_queries [] = []"
| "balance_queries (Query_Balance b # es) = b # balance_queries es"
| "balance_queries (_ # es) = balance_queries es"

subsection \<open>The specification's clamp\<close>


subsection \<open>A simulated exchange\<close>

text \<open>Concrete collaborators for running the bot on examples. The state of the simulated
  exchange is the number of queries it has answered; the price history and the balances
  may depend on it, the answer to an order on the kind of order, and the forecaster returns
  a fixed price.\<close>

definition sim_exchange ::
  "(nat \<Rightarrow> bar list response) \<Rightarrow> (nat \<Rightarrow> (string \<times> rat) list response)
     \<Rightarrow> (ordertype \<Rightarrow> (string \<times> string) list response) \<Rightarrow> rat \<Rightarrow> nat env" where
  "sim_exchange ohlc bal ans fc =
     \<lparr>query_OHLC = (\<lambda>p i w. (ohlc w, Suc w)),
      query_Balance = (\<lambda>w. (bal w, Suc w)),
      query_AddOrder = (\<lambda>r w. (ans (order_ordertype r), Suc w)),
      arima_forecast = (\<lambda>closes. fc)\<rparr>"

definition candle :: "rat \<Rightarrow> bar" where
  "candle c = \<lparr>bar_time = 0, bar_open = c, bar_high = c, bar_low = c, bar_close = c,
               bar_vwap = c, bar_volume = 1, bar_count = 1\<rparr>"

text \<open>The defaults of \<^verbatim>\<open>__init__\<close>: \<^verbatim>\<open>sell_percentage=0.25\<close> is a binary64 number,
  \<^verbatim>\<open>stop_loss_pct=0.10\<close> is the one nearest to a tenth.\<close>

definition default_bot :: KrakenBot where
  "default_bot = \<lparr>pair = ''XXBTZUSD'', lookback = 50, max_usd_per_order = 33,
                  sell_percentage = 1 / 4, stop_loss_pct = fl (1 / 10),
                  usd_balance = 0, btc_balance = 0\<rparr>"

definition history :: "bar list \<Rightarrow> nat \<Rightarrow> bar list response" where
  "history bars w = Response [] bars"

definition history_once :: "bar list \<Rightarrow> nat \<Rightarrow> bar list response" where
  "history_once bars w =
     (if w = 0 then Response [] bars else Response [''EService:Unavailable''] [])"

definition funded :: "nat \<Rightarrow> (string \<times> rat) list response" where
  "funded w = Response [] [(''ZUSD'', 50), (''XXBT'', 2)]"

definition balances :: "rat \<Rightarrow> rat \<Rightarrow> nat \<Rightarrow> (string \<times> rat) list response" where
  "balances usd btc w = Response [] [(''ZUSD'', usd), (''XXBT'', btc)]"

definition funded_before :: "nat \<Rightarrow> nat \<Rightarrow> (string \<times> rat) list response" where
  "funded_before k w =
     (if w < k then Response [] [(''ZUSD'', 50), (''XXBT'', 2)]
      else Response [''EService:Unavailable''] [])"

definition fills :: "ordertype \<Rightarrow> (string \<times> string) list response" where
  "fills t = Response [] [(''txid'', ''OTXID1'')]"

fun fills_market_only :: "ordertype \<Rightarrow> (string \<times> string) list response" where
  "fills_market_only Market = Response [] [(''txid'', ''OTXID1'')]"
| "fills_market_only Stop_loss = Response [''EOrder:Invalid price''] []"

definition rejects :: "ordertype \<Rightarrow> (string \<times> string) list response" where
  "rejects t = Response [''EOrder:Insufficient funds''] []"

section \<open>Auxiliary facts\<close>

subsection \<open>Binary64 rounding\<close>

lemma pow2_less_cancel: "(2::rat) powi a < 2 powi b \<Longrightarrow> a < b"
  by (rule ccontr) (use power_int_increasing [of b a "2::rat"] in auto)

lemma ilog2_bounds:
  assumes "0 < x"
  shows "2 powi (ilog2 x) \<le> x \<and> x < 2 powi (ilog2 x + 1)"
proof (cases "1 \<le> x")
  case True
  define n where "n = \<lfloor>x\<rfloor>"
  have n: "0 < n" "of_int n \<le> x" "x < of_int n + 1"
    using True by (auto simp: n_def) linarith+
  have b: "1 \<le> bitlen n"
    using n(1) bitlen_eq_zero_iff [of n] bitlen_nonneg [of n] by linarith
  from bitlen_bounds [OF n(1)]
  have lo: "(2::int) ^ nat (bitlen n - 1) \<le> n" and hi: "n < 2 ^ nat (bitlen n)"
    by auto
  have e: "ilog2 x = bitlen n - 1"
    using True by (simp add: ilog2_def n_def)
  have "(2::rat) powi (bitlen n - 1) = of_int (2 ^ nat (bitlen n - 1))"
    using b by (simp add: power_int_nonneg_exp)
  also have "\<dots> \<le> of_int n"
    using lo by (simp only: of_int_le_iff)
  finally have 1: "(2::rat) powi (bitlen n - 1) \<le> x"
    using n(2) by linarith
  have "n + 1 \<le> 2 ^ nat (bitlen n)"
    using hi by linarith
  then have "(of_int (n + 1) :: rat) \<le> of_int (2 ^ nat (bitlen n))"
    by (simp only: of_int_le_iff)
  also have "\<dots> = 2 powi (bitlen n)"
    using b by (simp add: power_int_nonneg_exp)
  finally have 2: "x < 2 powi (bitlen n)"
    using n(3) by simp
  from 1 2 show ?thesis
    by (simp add: e)
next
  case False
  define y where "y = 1 / x"
  define c where "c = \<lceil>y\<rceil>"
  have y: "1 < y" "x = 1 / y"
    using assms False by (auto simp: y_def)
  have c: "y \<le> of_int c" "of_int c - 1 < y" "0 < c - 1"
    using y(1) by (auto simp: c_def) linarith+
  define m where "m = bitlen (c - 1)"
  have m: "1 \<le> m"
    using c(3) bitlen_eq_zero_iff [of "c - 1"] bitlen_nonneg [of "c - 1"]
    unfolding m_def by linarith
  from bitlen_bounds [OF c(3)]
  have lo: "(2::int) ^ nat (m - 1) \<le> c - 1" and hi: "c - 1 < 2 ^ nat m"
    by (auto simp: m_def)
  have e: "ilog2 x = - m"
    using False by (simp add: ilog2_def m_def c_def y_def)
  have "c \<le> 2 ^ nat m"
    using hi by linarith
  then have "(of_int c :: rat) \<le> of_int (2 ^ nat m)"
    by (simp only: of_int_le_iff)
  then have "(of_int c :: rat) \<le> 2 ^ nat m"
    by simp
  then have "y \<le> 2 ^ nat m"
    using c(1) by linarith
  then have "1 / (2 ^ nat m) \<le> 1 / y"
    using y(1) by (intro divide_left_mono) auto
  moreover have "(2::rat) powi (- m) = 1 / 2 ^ nat m"
    using m by (simp add: power_int_minus_divide power_int_nonneg_exp)
  ultimately have 1: "2 powi (- m) \<le> x"
    using y(2) by simp
  have "(of_int (2 ^ nat (m - 1)) :: rat) \<le> of_int (c - 1)"
    using lo by (simp only: of_int_le_iff)
  then have "(2::rat) ^ nat (m - 1) \<le> of_int c - 1"
    by simp
  then have "(2::rat) ^ nat (m - 1) < y"
    using c(2) by linarith
  then have "1 / y < 1 / (2 ^ nat (m - 1))"
    using y(1) by (intro divide_strict_left_mono) (auto intro: mult_pos_pos)
  moreover have "(2::rat) powi (- m + 1) = 1 / 2 ^ nat (m - 1)"
  proof -
    have "(2::rat) powi (- m + 1) = 2 powi (- (m - 1))"
      by simp
    also have "\<dots> = 1 / 2 powi (m - 1)"
      by (rule power_int_minus_divide)
    also have "\<dots> = 1 / 2 ^ nat (m - 1)"
      using m by (simp add: power_int_nonneg_exp)
    finally show ?thesis .
  qed
  ultimately have 2: "x < 2 powi (- m + 1)"
    using y(2) by simp
  from 1 2 show ?thesis
    by (simp add: e)
qed

lemma ilog2_less:
  assumes "0 < x" "x < 2 powi k"
  shows "ilog2 x < k"
proof -
  have "(2::rat) powi (ilog2 x) < 2 powi k"
    using ilog2_bounds [OF assms(1)] assms(2) by linarith
  then show ?thesis
    by (rule pow2_less_cancel)
qed

lemma ilog2_ge:
  assumes "2 powi k \<le> x"
  shows "k \<le> ilog2 x"
proof -
  have "0 < x"
    using assms zero_less_power_int [of "2::rat" k] by linarith
  then have "(2::rat) powi k < 2 powi (ilog2 x + 1)"
    using ilog2_bounds [of x] assms by linarith
  then have "k < ilog2 x + 1"
    by (rule pow2_less_cancel)
  then show ?thesis
    by simp
qed

lemma ulp_pos: "0 < ulp x"
  by (simp add: ulp_def)

lemma round_half_even_of_int: "round_half_even (of_int k) = k"
  by (simp add: round_half_even_def)

lemma round_half_even_near: "\<bar>of_int (round_half_even y) - y\<bar> \<le> 1 / 2"
proof -
  have "of_int \<lfloor>y\<rfloor> \<le> y" "y < of_int \<lfloor>y\<rfloor> + 1"
    by linarith+
  then show ?thesis
    by (auto simp: round_half_even_def Let_def)
qed

lemma round_half_even_le:
  assumes "y \<le> of_int n"
  shows "round_half_even y \<le> n"
proof -
  have f: "\<lfloor>y\<rfloor> \<le> n"
    using assms by (simp add: floor_le_iff) 
  show ?thesis
  proof (cases "\<lfloor>y\<rfloor> = n")
    case True
    moreover have "of_int \<lfloor>y\<rfloor> \<le> y"
      by simp
    ultimately have "y = of_int n"
      using assms by simp
    then show ?thesis
      by (simp add: round_half_even_of_int)
  next
    case False
    with f have "\<lfloor>y\<rfloor> + 1 \<le> n"
      by simp
    then show ?thesis
      by (auto simp: round_half_even_def Let_def)
  qed
qed

lemma round_half_even_ge:
  assumes "of_int n \<le> y"
  shows "n \<le> round_half_even y"
proof -
  have "n \<le> \<lfloor>y\<rfloor>"
    using assms by (simp add: le_floor_iff)
  then show ?thesis
    by (auto simp: round_half_even_def Let_def)
qed

lemma fl_near: "\<bar>fl x - x\<bar> \<le> ulp x / 2"
proof (cases "x = 0")
  case True
  then show ?thesis
    using ulp_pos [of 0] by (simp add: fl_def)
next
  case False
  have "\<bar>of_int (round_half_even (x / ulp x)) - x / ulp x\<bar> \<le> 1 / 2"
    by (rule round_half_even_near)
  then have "\<bar>of_int (round_half_even (x / ulp x)) - x / ulp x\<bar> * ulp x \<le> 1 / 2 * ulp x"
    using ulp_pos [of x] by (intro mult_right_mono) auto
  moreover have "\<bar>of_int (round_half_even (x / ulp x)) - x / ulp x\<bar> * ulp x
      = \<bar>of_int (round_half_even (x / ulp x)) * ulp x - x\<bar>"
  proof -
    have "\<bar>of_int (round_half_even (x / ulp x)) - x / ulp x\<bar> * ulp x
      = \<bar>(of_int (round_half_even (x / ulp x)) - x / ulp x) * ulp x\<bar>"
      using ulp_pos [of x] by (simp add: abs_mult)
    also have "(of_int (round_half_even (x / ulp x)) - x / ulp x) * ulp x
      = of_int (round_half_even (x / ulp x)) * ulp x - x"
      using ulp_pos [of x] by (simp add: left_diff_distrib)
    finally show ?thesis .
  qed
  ultimately show ?thesis
    using False by (simp add: fl_def)
qed

lemma round_half_even_unique:
  assumes "\<bar>y - of_int k\<bar> < 1 / 2"
  shows "round_half_even y = k"
proof -
  have y: "of_int k - 1 / 2 < y" "y < of_int k + 1 / 2"
    using assms by linarith+
  have "of_int (k - 1) \<le> y"
    using y(1) by simp
  then have lo: "k - 1 \<le> \<lfloor>y\<rfloor>"
    by (simp only: le_floor_iff)
  have "y < of_int k + 1"
    using y(2) by linarith
  then have hi: "\<lfloor>y\<rfloor> \<le> k"
    by (simp add: floor_le_iff)
  from lo hi consider "\<lfloor>y\<rfloor> = k" | "\<lfloor>y\<rfloor> = k - 1"
    by linarith
  then show ?thesis
  proof cases
    case 1
    then show ?thesis
      using y by (simp add: round_half_even_def Let_def)
  next
    case 2
    then show ?thesis
      using y by (simp add: round_half_even_def Let_def)
  qed
qed

lemma round_half_even_minus: "round_half_even (- y) = - round_half_even y"
proof (cases "y = of_int \<lfloor>y\<rfloor>")
  case True
  then obtain k where "y = of_int k"
    by blast
  then have "- y = of_int (- k)"
    by simp
  then show ?thesis
    unfolding \<open>y = of_int k\<close> by (simp only: round_half_even_of_int)
next
  case False
  have "of_int \<lfloor>y\<rfloor> \<le> y"
    by simp
  with False have b1: "of_int \<lfloor>y\<rfloor> < y"
    by linarith
  have b2: "y < of_int \<lfloor>y\<rfloor> + 1"
    by linarith
  note b = b1 b2
  then have f: "\<lfloor>- y\<rfloor> = - \<lfloor>y\<rfloor> - 1"
    by (intro floor_unique) auto
  show ?thesis
    using b by (auto simp: round_half_even_def Let_def f)
qed

lemma ulp_minus: "ulp (- x) = ulp x"
  by (simp add: ulp_def)

lemma fl_minus: "fl (- x) = - fl x"
  by (simp add: fl_def ulp_minus round_half_even_minus)

lemma fl_nonpos: "x \<le> 0 \<Longrightarrow> fl x \<le> 0"
proof -
  assume "x \<le> 0"
  then have "x / ulp x \<le> of_int 0"
    using ulp_pos [of x] by (simp add: divide_le_0_iff)
  then have "round_half_even (x / ulp x) \<le> 0"
    by (rule round_half_even_le)
  then have "(of_int (round_half_even (x / ulp x)) :: rat) \<le> 0"
    by simp
  then show ?thesis
    using ulp_pos [of x] by (simp add: fl_def mult_le_0_iff)
qed

text \<open>Rounding does not cross a double: a bound \<open>n * 2^j\<close> with \<open>n\<close> of at most 53 bits.\<close>

lemma fl_le_double:
  assumes "x \<le> of_int n * 2 powi j" "0 < n" "n < 2 ^ 53" "- 1074 \<le> j"
  shows "fl x \<le> of_int n * 2 powi j"
proof (cases "0 < x")
  case False
  then have "fl x \<le> 0"
    by (intro fl_nonpos) simp
  moreover have "(0::rat) \<le> of_int n * 2 powi j"
    using assms(2) by simp
  ultimately show ?thesis
    by linarith
next
  case True
  define e where "e = ilog2 x"
  define k where "k = max e (- 1022) - 52"
  have u: "ulp x = 2 powi k"
    using True by (simp add: ulp_def k_def e_def)
  have "(of_int n :: rat) < of_int (2 ^ 53)"
    using assms(3) by (simp only: of_int_less_iff)
  then have "(of_int n :: rat) < 2 powi 53"
    by simp
  then have "of_int n * 2 powi j < (2::rat) powi 53 * 2 powi j"
    by (intro mult_strict_right_mono) auto
  also have "\<dots> = 2 powi (53 + j)"
    by (simp add: power_int_add)
  finally have "x < 2 powi (53 + j)"
    using assms(1) by linarith
  then have "e < 53 + j"
    unfolding e_def using True by (intro ilog2_less)
  then have kj: "k \<le> j"
    using assms(4) by (simp add: k_def)
  have split: "(2::rat) powi j = 2 powi (j - k) * 2 powi k"
    by (simp add: power_int_add [symmetric])
  have int: "(2::rat) powi (j - k) = of_int (2 ^ nat (j - k))"
    using kj by (simp add: power_int_nonneg_exp)
  have "x / 2 powi k \<le> (of_int n * 2 powi j) / 2 powi k"
    using assms(1) by (intro divide_right_mono) auto
  also have "\<dots> = of_int n * 2 powi (j - k)"
    by (subst split) simp
  also have "\<dots> = of_int (n * 2 ^ nat (j - k))"
    by (simp add: int)
  finally have "round_half_even (x / 2 powi k) \<le> n * 2 ^ nat (j - k)"
    by (rule round_half_even_le)
  then have "(of_int (round_half_even (x / 2 powi k)) :: rat) \<le> of_int (n * 2 ^ nat (j - k))"
    by (simp only: of_int_le_iff)
  then have "of_int (round_half_even (x / 2 powi k)) * 2 powi k
      \<le> (of_int (n * 2 ^ nat (j - k)) :: rat) * 2 powi k"
    by (intro mult_right_mono) auto
  also have "\<dots> = of_int n * (2 powi (j - k) * 2 powi k)"
    by (simp add: int)
  also have "\<dots> = of_int n * 2 powi j"
    by (simp only: split [symmetric])
  finally show ?thesis
    using True by (simp add: fl_def u)
qed

lemma fl_abs_le_double:
  assumes "\<bar>x\<bar> \<le> of_int n * 2 powi j" "0 < n" "n < 2 ^ 53" "- 1074 \<le> j"
  shows "\<bar>fl x\<bar> \<le> of_int n * 2 powi j"
proof -
  have "fl x \<le> of_int n * 2 powi j"
    using assms by (intro fl_le_double) auto
  moreover have "fl (- x) \<le> of_int n * 2 powi j"
    using assms by (intro fl_le_double) auto
  ultimately show ?thesis
    by (simp add: fl_minus abs_le_iff)
qed

lemma fl_relative:
  assumes "2 powi (- 1022) \<le> \<bar>x\<bar>"
  shows "\<bar>fl x - x\<bar> \<le> \<bar>x\<bar> / 2 ^ 53"
proof -
  define e where "e = ilog2 \<bar>x\<bar>"
  have pos: "0 < \<bar>x\<bar>"
    using assms zero_less_power_int [of "2::rat" "- 1022"] by linarith
  have "- 1022 \<le> e"
    unfolding e_def using assms by (rule ilog2_ge)
  then have "ulp x = 2 powi (e - 52)"
    by (simp add: ulp_def e_def max_def)
  also have "\<dots> = 2 powi e / 2 ^ 52"
    by (simp add: power_int_diff)
  also have "\<dots> \<le> \<bar>x\<bar> / 2 ^ 52"
    using ilog2_bounds [OF pos] by (intro divide_right_mono) (auto simp: e_def)
  finally have "ulp x / 2 \<le> \<bar>x\<bar> / 2 ^ 53"
    by simp
  with fl_near [of x] show ?thesis
    by linarith
qed

lemma round_half_even_gt_half:
  assumes "of_int n + 1 / 2 < y"
  shows "n + 1 \<le> round_half_even y"
proof -
  have "of_int n \<le> y"
    using assms by linarith
  then have f: "n \<le> \<lfloor>y\<rfloor>"
    by (simp only: le_floor_iff)
  show ?thesis
  proof (cases "\<lfloor>y\<rfloor> = n")
    case True
    then show ?thesis
      using assms by (simp add: round_half_even_def Let_def)
  next
    case False
    with f have "n + 1 \<le> \<lfloor>y\<rfloor>"
      by simp
    then show ?thesis
      by (auto simp: round_half_even_def Let_def)
  qed
qed

lemma round_half_even_le_half:
  assumes "y \<le> of_int n + 1 / 2" "even n"
  shows "round_half_even y \<le> n"
proof -
  have "y < of_int n + 1"
    using assms(1) by linarith
  then have f: "\<lfloor>y\<rfloor> \<le> n"
    by (simp add: floor_le_iff)
  show ?thesis
  proof (cases "\<lfloor>y\<rfloor> = n")
    case True
    then show ?thesis
      using assms by (simp add: round_half_even_def Let_def)
  next
    case False
    with f have "\<lfloor>y\<rfloor> + 1 \<le> n"
      by simp
    then show ?thesis
      by (auto simp: round_half_even_def Let_def)
  qed
qed

lemma fl_ge_pow2:
  assumes "0 < x" "- 1022 \<le> ilog2 x"
  shows "2 powi (ilog2 x) \<le> fl x"
proof -
  define e where "e = ilog2 x"
  have u: "ulp x = 2 powi (e - 52)"
    using assms by (simp add: ulp_def e_def max_def)
  have split: "(2::rat) powi e = 2 ^ 52 * 2 powi (e - 52)"
    using power_int_add [of "2::rat" 52 "e - 52"] by simp
  have "(of_int (2 ^ 52) :: rat) = 2 powi e / 2 powi (e - 52)"
    by (subst split) simp
  also have "\<dots> \<le> x / 2 powi (e - 52)"
    using ilog2_bounds [OF assms(1)] by (intro divide_right_mono) (auto simp: e_def)
  finally have "2 ^ 52 \<le> round_half_even (x / 2 powi (e - 52))"
    by (rule round_half_even_ge)
  then have r: "(of_int (2 ^ 52) :: rat) \<le> of_int (round_half_even (x / 2 powi (e - 52)))"
    by (simp only: of_int_le_iff)
  have fx: "fl x = of_int (round_half_even (x / ulp x)) * ulp x"
    using assms(1) by (simp add: fl_def)
  have "(2::rat) powi e = of_int (2 ^ 52) * 2 powi (e - 52)"
    by (subst split) simp
  also have "\<dots> \<le> of_int (round_half_even (x / 2 powi (e - 52))) * 2 powi (e - 52)"
    using r by (intro mult_right_mono) auto
  also have "\<dots> = fl x"
    by (simp only: fx u)
  finally show ?thesis
    by (simp only: e_def)
qed

text \<open>The threshold of the bot: a difference is rounded above 15 exactly when it is above
  the midpoint between 15 and the next binary64 number, \<open>15 + 2 ^ - 49\<close>.\<close>

lemma fl_gt_15_iff: "15 < fl x \<longleftrightarrow> 15 + 1 / 2 ^ 50 < x"
proof
  assume x: "15 + 1 / 2 ^ 50 < x"
  have "(0::rat) < 15 + 1 / 2 ^ 50"
    by simp
  then have pos: "0 < x"
    using x by (rule less_trans)
  have "(2::rat) powi 3 \<le> x"
    using x by simp
  then have e3: "3 \<le> ilog2 x"
    by (rule ilog2_ge)
  show "15 < fl x"
  proof (cases "ilog2 x = 3")
    case True
    then have u: "ulp x = 1 / 2 ^ 49"
      using pos by (simp add: ulp_def power_int_minus_divide)
    have "of_int (15 * 2 ^ 49) + 1 / 2 < x / (1 / 2 ^ 49)"
      using x by simp
    then have "15 * 2 ^ 49 + 1 \<le> round_half_even (x / (1 / 2 ^ 49))"
      by (rule round_half_even_gt_half)
    then have "(of_int (15 * 2 ^ 49 + 1) :: rat) \<le> of_int (round_half_even (x / (1 / 2 ^ 49)))"
      by (simp only: of_int_le_iff)
    then have "(of_int (15 * 2 ^ 49 + 1) :: rat) * (1 / 2 ^ 49)
        \<le> of_int (round_half_even (x / (1 / 2 ^ 49))) * (1 / 2 ^ 49)"
      by (intro mult_right_mono) auto
    moreover have "15 < (of_int (15 * 2 ^ 49 + 1) :: rat) * (1 / 2 ^ 49)"
      by simp
    ultimately show ?thesis
      using pos by (simp only: fl_def u) auto
  next
    case False
    with e3 have "4 \<le> ilog2 x"
      by simp
    then have "(2::rat) powi 4 \<le> 2 powi (ilog2 x)"
      by (intro power_int_increasing) auto
    also have "\<dots> \<le> fl x"
      using pos e3 by (intro fl_ge_pow2) auto
    finally show ?thesis
      by simp
  qed
next
  assume f: "15 < fl x"
  show "15 + 1 / 2 ^ 50 < x"
  proof (rule ccontr)
    assume "\<not> 15 + 1 / 2 ^ 50 < x"
    then have x: "x \<le> 15 + 1 / 2 ^ 50"
      by simp
    have "fl x \<le> 15"
    proof (cases "x \<le> 15")
      case True
      then have "fl x \<le> of_int 15 * 2 powi 0"
        by (intro fl_le_double) auto
      then show ?thesis
        by simp
    next
      case False
      then have pos: "0 < x" and lo: "(2::rat) powi 3 \<le> x" and hi: "x < 2 powi 4"
        using x by auto
      have "ilog2 x = 3"
        using ilog2_ge [OF lo] ilog2_less [OF pos hi] by simp
      then have u: "ulp x = 1 / 2 ^ 49"
        using pos by (simp add: ulp_def power_int_minus_divide)
      have "x / (1 / 2 ^ 49) \<le> of_int (15 * 2 ^ 49) + 1 / 2"
        using x by simp
      moreover have "even (15 * 2 ^ 49 :: int)"
        by simp
      ultimately have "round_half_even (x / (1 / 2 ^ 49)) \<le> 15 * 2 ^ 49"
        by (rule round_half_even_le_half)
      then have "(of_int (round_half_even (x / (1 / 2 ^ 49))) :: rat) \<le> of_int (15 * 2 ^ 49)"
        by (simp only: of_int_le_iff)
      then have "(of_int (round_half_even (x / (1 / 2 ^ 49))) :: rat) * (1 / 2 ^ 49)
          \<le> of_int (15 * 2 ^ 49) * (1 / 2 ^ 49)"
        by (intro mult_right_mono) auto
      then show ?thesis
        using pos by (simp only: fl_def u) auto
    qed
    with f show False
      by simp
  qed
qed

lemma dust_value: "dust = 7378697629483821 / 73786976294838206464"
  unfolding dust_def by code_simp

lemma fl_zero: "fl 0 = 0"
  by (simp add: fl_def)

lemma fl_pos_eq: "0 < x \<Longrightarrow> fl x = of_int (round_half_even (x / ulp x)) * ulp x"
  by (simp add: fl_def)

lemma ulp_eq: "ulp x = 2 powi (max (ilog2 \<bar>x\<bar>) (- 1022) - 52)"
  by (simp add: ulp_def)

text \<open>A number on the grid of its own binade is a binary64 number.\<close>

lemma fl_on_grid:
  assumes "r = of_int n * 2 powi k" "max (ilog2 \<bar>r\<bar>) (- 1022) - 52 \<le> k"
  shows "fl r = r"
proof (cases "r = 0")
  case True
  then show ?thesis
    by (simp add: fl_def)
next
  case False
  define k' where "k' = max (ilog2 \<bar>r\<bar>) (- 1022) - 52"
  have u: "ulp r = 2 powi k'"
    by (simp add: ulp_def k'_def)
  have split: "(2::rat) powi k = 2 powi (k - k') * 2 powi k'"
    by (simp add: power_int_add [symmetric])
  have int: "(2::rat) powi (k - k') = of_int (2 ^ nat (k - k'))"
    using assms(2) by (simp add: power_int_nonneg_exp k'_def)
  have "r / 2 powi k' = of_int n * 2 powi (k - k')"
    unfolding assms(1) by (subst split) simp
  also have "\<dots> = of_int (n * 2 ^ nat (k - k'))"
    by (simp add: int)
  finally have "round_half_even (r / 2 powi k') = n * 2 ^ nat (k - k')"
    by (simp only: round_half_even_of_int)
  then have "fl r = of_int (n * 2 ^ nat (k - k')) * 2 powi k'"
    using False by (simp add: fl_def u)
  also have "\<dots> = of_int n * (2 powi (k - k') * 2 powi k')"
    by (simp add: int)
  also have "\<dots> = r"
    unfolding assms(1) by (simp only: split [symmetric])
  finally show ?thesis .
qed

text \<open>The shape of a rounded positive number: an integer of at most 53 bits on the grid.\<close>

lemma fl_pos_shape:
  assumes "0 < x"
  defines "ke \<equiv> max (ilog2 x) (- 1022)"
  shows "\<exists>n. fl x = of_int n * 2 powi (ke - 52) \<and> 0 \<le> n \<and> n \<le> 2 ^ 53
           \<and> (- 1022 \<le> ilog2 x \<longrightarrow> 2 ^ 52 \<le> n)"
proof -
  define u where "u = (2::rat) powi (ke - 52)"
  define n where "n = round_half_even (x / u)"
  have ux: "ulp x = u"
    using assms(1) by (simp add: ulp_def u_def ke_def)
  have upos: "0 < u"
    by (simp add: u_def)
  have f: "fl x = of_int n * u"
    using assms(1) by (simp add: fl_pos_eq ux n_def)
  have "of_int 0 \<le> x / u"
    using assms(1) upos by simp
  then have n0: "0 \<le> n"
    unfolding n_def by (rule round_half_even_ge)
  have split: "(2::rat) powi (ke + 1) = 2 ^ 53 * u"
    using power_int_add [of "2::rat" 53 "ke - 52"] by (simp add: u_def add.commute)
  have "x < 2 powi (ilog2 x + 1)"
    using ilog2_bounds [OF assms(1)] by simp
  also have "\<dots> \<le> 2 powi (ke + 1)"
    by (intro power_int_increasing) (auto simp: ke_def)
  finally have "x / u < 2 powi (ke + 1) / u"
    using upos by (simp add: divide_strict_right_mono)
  also have "\<dots> = of_int (2 ^ 53)"
    using upos by (simp add: split)
  finally have "x / u \<le> of_int (2 ^ 53)"
    by simp
  then have n1: "n \<le> 2 ^ 53"
    unfolding n_def by (rule round_half_even_le)
  have n2: "2 ^ 52 \<le> n" if "- 1022 \<le> ilog2 x"
  proof -
    have ke: "ke = ilog2 x"
      using that by (simp add: ke_def)
    have split2: "(2::rat) powi ke = 2 ^ 52 * u"
      using power_int_add [of "2::rat" 52 "ke - 52"] by (simp add: u_def)
    have "(of_int (2 ^ 52) :: rat) = 2 powi ke / u"
      using upos by (simp add: split2)
    also have "\<dots> \<le> x / u"
      using ilog2_bounds [OF assms(1)] upos by (intro divide_right_mono) (auto simp: ke)
    finally show ?thesis
      unfolding n_def by (rule round_half_even_ge)
  qed
  from f n0 n1 n2 show ?thesis
    unfolding u_def by blast
qed

lemma fl_idem_pos:
  assumes "0 < x"
  shows "fl (fl x) = fl x"
proof -
  define ke where "ke = max (ilog2 x) (- 1022)"
  from fl_pos_shape [OF assms] obtain n where
    f: "fl x = of_int n * 2 powi (ke - 52)" and n: "0 \<le> n" "n \<le> 2 ^ 53"
    unfolding ke_def by blast
  have ke: "- 1022 \<le> ke"
    by (simp add: ke_def)
  have split: "(2::rat) powi (ke + 1) = 2 ^ 53 * 2 powi (ke - 52)"
    using power_int_add [of "2::rat" 53 "ke - 52"] by (simp add: add.commute)
  consider "n = 0" | "n = 2 ^ 53" | "0 < n" "n < 2 ^ 53"
    using n by linarith
  then show ?thesis
  proof cases
    case 1
    then have "fl x = 0"
      by (simp add: f)
    then show ?thesis
      by (simp only: fl_zero)
  next
    case 2
    then have r: "fl x = of_int 1 * 2 powi (ke + 1)"
      by (simp add: f split)
    have "\<bar>fl x\<bar> < 2 powi (ke + 2)"
      unfolding r by (simp add: power_int_strict_increasing)
    moreover have "0 < \<bar>fl x\<bar>"
      unfolding r by simp
    ultimately have "ilog2 \<bar>fl x\<bar> < ke + 2"
      by (intro ilog2_less)
    then have "max (ilog2 \<bar>fl x\<bar>) (- 1022) - 52 \<le> ke + 1"
      using ke by simp
    with r show ?thesis
      by (rule fl_on_grid)
  next
    case 3
    have "(of_int n :: rat) < of_int (2 ^ 53)"
      using 3(2) by (simp only: of_int_less_iff)
    then have "of_int n * 2 powi (ke - 52) < (of_int (2 ^ 53) :: rat) * 2 powi (ke - 52)"
      by (intro mult_strict_right_mono) auto
    then have "\<bar>fl x\<bar> < 2 powi (ke + 1)"
      using 3(1) by (simp add: f split abs_mult)
    moreover have "0 < \<bar>fl x\<bar>"
      using 3(1) by (simp add: f)
    ultimately have "ilog2 \<bar>fl x\<bar> < ke + 1"
      by (intro ilog2_less)
    then have "max (ilog2 \<bar>fl x\<bar>) (- 1022) - 52 \<le> ke - 52"
      using ke by simp
    with f show ?thesis
      by (rule fl_on_grid)
  qed
qed

lemma fl_idem: "fl (fl x) = fl x"
proof -
  consider "x = 0" | "0 < x" | "0 < - x"
    by linarith
  then show ?thesis
  proof cases
    case 1
    then show ?thesis
      by (simp only: fl_zero)
  next
    case 2
    then show ?thesis
      by (rule fl_idem_pos)
  next
    case 3
    then have "fl (fl (- x)) = fl (- x)"
      by (rule fl_idem_pos)
    then show ?thesis
      by (simp add: fl_minus)
  qed
qed

lemma ilog2_eq:
  assumes "2 powi j \<le> x" "x < 2 powi (j + 1)"
  shows "ilog2 x = j"
proof -
  have "0 < x"
    using assms(1) zero_less_power_int [of "2::rat" j] by linarith
  then have "ilog2 x < j + 1"
    using assms(2) by (intro ilog2_less)
  moreover have "j \<le> ilog2 x"
    using assms(1) by (rule ilog2_ge)
  ultimately show ?thesis
    by simp
qed

text \<open>Rounding a binary64 number that is an integer to one decimal gives it back.\<close>

lemma tenth_of_integer:
  assumes "fl t = of_int m"
  shows "fl (of_int (round_half_even (fl t * 10)) / 10) = fl t"
proof -
  have "fl t * 10 = of_int (m * 10)"
    by (simp add: assms)
  then have "round_half_even (fl t * 10) = m * 10"
    by (simp only: round_half_even_of_int)
  then have "of_int (round_half_even (fl t * 10)) / 10 = fl t"
    by (simp add: assms)
  then show ?thesis
    by (simp only: fl_idem)
qed

lemma tenth_trip_pos:
  assumes "0 < k"
  shows "fl (of_int (round_half_even (fl (of_int k / 10) * 10)) / 10) = fl (of_int k / 10)"
proof -
  define t where "t = (of_int k / 10 :: rat)"
  define e where "e = ilog2 t"
  have tpos: "0 < t"
    using assms by (simp add: t_def)
  show ?thesis
    unfolding t_def [symmetric]
  proof (cases "e \<le> 48")
    case True
    then have "max e (- 1022) - 52 \<le> - 4"
      by simp
    then have "(2::rat) powi (max e (- 1022) - 52) \<le> 2 powi (- 4)"
      by (intro power_int_increasing) auto
    then have "ulp t \<le> 1 / 16"
      using tpos by (simp add: ulp_def e_def power_int_minus_divide)
    with fl_near [of t] have "\<bar>fl t - t\<bar> \<le> 1 / 32"
      by linarith
    moreover have "t * 10 = of_int k"
      by (simp add: t_def)
    ultimately have "\<bar>fl t * 10 - of_int k\<bar> < 1 / 2"
      by linarith
    then have "round_half_even (fl t * 10) = k"
      by (rule round_half_even_unique)
    then show "fl (of_int (round_half_even (fl t * 10)) / 10) = fl t"
      by (simp add: t_def)
  next
    case False
    then have e49: "49 \<le> e"
      by simp
    then have ke: "max (ilog2 t) (- 1022) = e" and norm: "- 1022 \<le> ilog2 t"
      by (simp_all add: e_def)
    define u where "u = (2::rat) powi (e - 52)"
    from fl_pos_shape [OF tpos] obtain n where
      r: "fl t = of_int n * u" and n: "2 ^ 52 \<le> n" "n \<le> 2 ^ 53"
      unfolding ke u_def using norm by blast
    have upos: "0 < u"
      by (simp add: u_def)
    have lo_split: "(2::rat) powi e = 2 ^ 52 * u"
      using power_int_add [of "2::rat" 52 "e - 52"] by (simp add: u_def)
    have hi_split: "(2::rat) powi (e + 1) = 2 ^ 53 * u"
      using power_int_add [of "2::rat" 53 "e - 52"] by (simp add: u_def add.commute)
    have lo_int: "(2::rat) powi e = of_int (2 ^ nat e)"
      using e49 by (simp add: power_int_nonneg_exp)
    have hi_int: "(2::rat) powi (e + 1) = of_int (2 ^ nat (e + 1))"
      using e49 by (simp add: power_int_nonneg_exp)
    consider "n = 2 ^ 53" | "52 \<le> e" | "n < 2 ^ 53" "e \<le> 51"
      using n(2) by linarith
    then show "fl (of_int (round_half_even (fl t * 10)) / 10) = fl t"
    proof cases
      case 1
      then have "fl t = 2 powi (e + 1)"
        by (simp add: r hi_split)
      then have "fl t = of_int (2 ^ nat (e + 1))"
        by (simp only: hi_int)
      then show ?thesis
        by (rule tenth_of_integer)
    next
      case 2
      then have "u = of_int (2 ^ nat (e - 52))"
        by (simp add: u_def power_int_nonneg_exp)
      then have "fl t = of_int (n * 2 ^ nat (e - 52))"
        by (simp add: r)
      then show ?thesis
        by (rule tenth_of_integer)
    next
      case 3
      define k' where "k' = round_half_even (fl t * 10)"
      define t' where "t' = (of_int k' / 10 :: rat)"
      have "(2::rat) powi (- 3) \<le> 2 powi (e - 52)"
        using e49 by (intro power_int_increasing) auto
      then have u8: "1 / 8 \<le> u"
        by (simp add: u_def power_int_minus_divide)
      have near: "\<bar>t' - fl t\<bar> \<le> 1 / 20"
      proof -
        have "\<bar>of_int k' - fl t * 10\<bar> \<le> 1 / 2"
          unfolding k'_def by (rule round_half_even_near)
        moreover have "t' * 10 = of_int k'"
          by (simp add: t'_def)
        ultimately show ?thesis
          by linarith
      qed
      have "(of_int (2 ^ 52) :: rat) \<le> of_int n"
        using n(1) by (simp only: of_int_le_iff)
      then have "(of_int (2 ^ 52) :: rat) * u \<le> of_int n * u"
        using upos by (intro mult_right_mono) auto
      then have "(2::rat) powi e \<le> of_int n * u"
        by (simp add: lo_split)
      then have rlo: "of_int (2 ^ nat e) \<le> fl t"
        by (simp only: lo_int r)
      then have "of_int (2 ^ nat e * 10) \<le> fl t * 10"
        by simp
      then have "2 ^ nat e * 10 \<le> k'"
        unfolding k'_def by (rule round_half_even_ge)
      then have "(of_int (2 ^ nat e * 10) :: rat) \<le> of_int k'"
        by (simp only: of_int_le_iff)
      then have tlo: "2 powi e \<le> t'"
        by (simp add: t'_def lo_int)
      have "n \<le> 2 ^ 53 - 1"
        using 3(1) by simp
      then have "(of_int n :: rat) \<le> of_int (2 ^ 53 - 1)"
        by (simp only: of_int_le_iff)
      then have "of_int n * u \<le> (of_int (2 ^ 53 - 1) :: rat) * u"
        using upos by (intro mult_right_mono) auto
      also have "\<dots> = 2 powi (e + 1) - u"
        by (simp add: hi_split left_diff_distrib)
      finally have "fl t \<le> 2 powi (e + 1) - u"
        by (simp only: r)
      then have "fl t \<le> 2 powi (e + 1) - 1 / 8"
        using u8 by linarith
      then have "fl t \<le> of_int (2 ^ nat (e + 1)) - 1 / 8"
        by (simp only: hi_int)
      then have "fl t * 10 \<le> of_int (2 ^ nat (e + 1) * 10 - 1)"
        by simp
      then have "k' \<le> 2 ^ nat (e + 1) * 10 - 1"
        unfolding k'_def by (rule round_half_even_le)
      then have "(of_int k' :: rat) \<le> of_int (2 ^ nat (e + 1) * 10 - 1)"
        by (simp only: of_int_le_iff)
      then have thi: "t' < 2 powi (e + 1)"
        by (simp add: t'_def hi_int)
      have e': "ilog2 t' = e"
        using tlo thi by (rule ilog2_eq)
      have t'pos: "0 < t'"
        using tlo zero_less_power_int [of "2::rat" e] by linarith
      have u': "ulp t' = u"
        using t'pos e49 by (simp add: ulp_def e' u_def)
      have "t' / u - of_int n = (t' - fl t) / u"
        using upos by (simp add: r diff_divide_distrib)
      then have "\<bar>t' / u - of_int n\<bar> = \<bar>t' - fl t\<bar> / \<bar>u\<bar>"
        by (simp only: abs_divide)
      also have "\<dots> = \<bar>t' - fl t\<bar> / u"
        using upos by simp
      also have "\<dots> \<le> (1 / 20) / u"
        using near upos by (intro divide_right_mono) auto
      also have "\<dots> \<le> (1 / 20) / (1 / 8)"
        using u8 by (intro divide_left_mono) auto
      finally have "\<bar>t' / u - of_int n\<bar> < 1 / 2"
        by simp
      then have "round_half_even (t' / u) = n"
        by (rule round_half_even_unique)
      then have "fl t' = fl t"
        using t'pos by (simp add: fl_pos_eq u' r)
      then show ?thesis
        by (simp only: t'_def k'_def)
    qed
  qed
qed

lemma tenth_trip:
  "fl (of_int (round_half_even (fl (of_int k / 10) * 10)) / 10) = fl (of_int k / 10)"
proof -
  consider "k = 0" | "0 < k" | "0 < - k"
    by linarith
  then show ?thesis
  proof cases
    case 1
    then show ?thesis
      by (simp add: fl_zero round_half_even_def)
  next
    case 2
    then show ?thesis
      by (rule tenth_trip_pos)
  next
    case 3
    have m: "(of_int k / 10 :: rat) = - (of_int (- k) / 10)"
      by simp
    from tenth_trip_pos [OF 3] show ?thesis
      unfolding m fl_minus
      by (simp only: mult_minus_left round_half_even_minus of_int_minus minus_divide_left [symmetric]
          fl_minus neg_equal_iff_equal)
  qed
qed

lemma round1_idem: "round1 (round1 x) = round1 x"
  unfolding round1_def by (rule tenth_trip)

lemma round1_tenth:
  "\<exists>k::int. round1 x = fl (of_int k / 10) \<and> \<bar>of_int k / 10 - x\<bar> \<le> 1 / 20"
proof -
  have "\<bar>of_int (round_half_even (x * 10)) - x * 10\<bar> \<le> 1 / 2"
    by (rule round_half_even_near)
  then have "\<bar>of_int (round_half_even (x * 10)) / 10 - x\<bar> \<le> 1 / 20"
    by linarith
  then show ?thesis
    unfolding round1_def by blast
qed

subsection \<open>Reading appended event lists\<close>

lemma market_orders_append: "market_orders (xs @ ys) = market_orders xs @ market_orders ys"
  by (induction xs rule: market_orders.induct) auto

lemma stop_orders_append: "stop_orders (xs @ ys) = stop_orders xs @ stop_orders ys"
  by (induction xs rule: stop_orders.induct) auto

lemma csv_rows_append: "csv_rows (xs @ ys) = csv_rows xs @ csv_rows ys"
  by (induction xs rule: csv_rows.induct) auto

lemmas reads_append = market_orders_append stop_orders_append csv_rows_append

subsection \<open>Slicing\<close>

lemma slice_from_drop: "\<exists>n. slice_from i xs = drop n xs"
  by (auto simp: slice_from_def Let_def)

lemma slice_from_last: "slice_from i xs \<noteq> [] \<Longrightarrow> last (slice_from i xs) = last xs"
  using slice_from_drop [of i xs] by auto

lemma slice_from_lookback:
  assumes "0 < L"
  shows "slice_from (- L) xs = drop (length xs - nat L) xs"
proof -
  have "nat (max (- L + int (length xs)) 0) = length xs - nat L"
    using assms by (simp add: max_def) linarith
  then show ?thesis
    using assms by (simp add: slice_from_def Let_def)
qed

subsection \<open>The threshold and the dust\<close>

lemma abs_fl_le_15_iff: "\<bar>fl x\<bar> \<le> 15 \<longleftrightarrow> \<bar>x\<bar> \<le> 15 + 1 / 2 ^ 50"
proof -
  have "15 < \<bar>fl x\<bar> \<longleftrightarrow> 15 < fl x \<or> 15 < fl (- x)"
    by (auto simp: fl_minus abs_if)
  also have "\<dots> \<longleftrightarrow> 15 + 1 / 2 ^ 50 < x \<or> 15 + 1 / 2 ^ 50 < - x"
    by (simp only: fl_gt_15_iff)
  also have "\<dots> \<longleftrightarrow> 15 + 1 / 2 ^ 50 < \<bar>x\<bar>"
    by (auto simp: abs_if)
  finally show ?thesis
    by (simp add: not_less [symmetric])
qed

lemma dust_pos: "0 < dust"
  by (simp add: dust_value)

lemma dust_not_neg: "\<not> dust < 0"
  using dust_pos by simp

text \<open>A quotient that is rounded above the dust is rounded up by at most one part in
  \<open>2 ^ 53\<close>.\<close>

lemma fl_above_dust:
  assumes "dust < fl q"
  shows "fl q \<le> q * (1 + 1 / 2 ^ 53)"
proof -
  have small: "(of_int 1 :: rat) * 2 powi (- 20) < dust"
    by (simp add: dust_value power_int_minus_divide)
  have "\<not> q \<le> of_int 1 * 2 powi (- 20)"
  proof
    assume "q \<le> of_int 1 * 2 powi (- 20)"
    then have "fl q \<le> of_int 1 * 2 powi (- 20)"
      by (intro fl_le_double) auto
    with small assms show False
      by linarith
  qed
  then have q: "2 powi (- 20) < q"
    by simp
  have "(2::rat) powi (- 1022) \<le> 2 powi (- 20)"
    by (intro power_int_increasing) auto
  with q have "2 powi (- 1022) \<le> \<bar>q\<bar>" and "0 < q"
    using zero_less_power_int [of "2::rat" "- 20"] by linarith+
  with fl_relative [of q] have "\<bar>fl q - q\<bar> \<le> q / 2 ^ 53"
    by simp
  then have "fl q \<le> q + q / 2 ^ 53"
    by linarith
  then show ?thesis
    by (simp add: distrib_left)
qed

lemma buy_cost:
  assumes "0 < l" "dust < v" "v \<le> fl (m / l)"
  shows "v * l \<le> m * (1 + 1 / 2 ^ 53)"
proof -
  have "dust < fl (m / l)"
    using assms(2,3) by linarith
  then have "fl (m / l) \<le> m / l * (1 + 1 / 2 ^ 53)"
    by (rule fl_above_dust)
  with assms(3) have "v \<le> m / l * (1 + 1 / 2 ^ 53)"
    by linarith
  then have "v * l \<le> m / l * (1 + 1 / 2 ^ 53) * l"
    using assms(1) by (intro mult_right_mono) auto
  also have "\<dots> = m * (1 + 1 / 2 ^ 53)"
    using assms(1) by simp
  finally show ?thesis .
qed

subsection \<open>What each method emits\<close>

lemma get_balance_events:
  "get_balance api w = (b, es, w1) \<Longrightarrow> \<exists>resp. es = [Query_Balance resp]"
  by (auto simp: get_balance_def split: prod.splits)

lemma place_order_events:
  "place_order api self t v w = (res, es, w1) \<Longrightarrow>
     \<exists>resp. es = [AddOrder \<lparr>order_pair = pair self, order_side = t, order_ordertype = Market,
                             order_price = None, order_volume = v\<rparr> resp]
            \<and> truthy res = accepted resp"
  by (auto simp: place_order_def truthy_def accepted_def Let_def split: prod.splits)

lemma place_stop_loss_events:
  "place_stop_loss api self p v w = (res, es, w1) \<Longrightarrow>
     \<exists>resp. es = [AddOrder \<lparr>order_pair = pair self, order_side = Sell,
                             order_ordertype = Stop_loss, order_price = Some (round1 p),
                             order_volume = v\<rparr> resp]"
  by (auto simp: place_stop_loss_def Let_def split: prod.splits)

lemma log_trade_events:
  "log_trade api self p l a v e pr w = (es, self', w1) \<Longrightarrow>
     \<exists>resp row. es = [Query_Balance resp, Csv_row row] \<and> row_difference row = fsub p l
        \<and> row_action row = a \<and> row_volume row = v"
  by (auto simp: log_trade_def get_balance_def Let_def split: prod.splits)

lemma buy_flow_shape:
  assumes "buy_flow api self p l w = (st, es, self', w')"
  shows "\<exists>b.
      (es = [Query_Balance b] \<and> st \<noteq> Returned)
    \<or> (error b = [] \<and> (\<exists>r resp. es = [Query_Balance b, AddOrder r resp]
          \<and> order_ordertype r = Market \<and> order_side r = Buy \<and> \<not> accepted resp
          \<and> st = Running))
    \<or> (error b = [] \<and> (\<exists>r resp sr sresp b2 row.
          es = [Query_Balance b, AddOrder r resp, AddOrder sr sresp, Query_Balance b2, Csv_row row]
          \<and> order_ordertype r = Market \<and> order_side r = Buy \<and> accepted resp
          \<and> order_ordertype sr = Stop_loss \<and> order_side sr = Sell
          \<and> order_volume sr = order_volume r
          \<and> order_price sr = Some (round1 (round1 (fmul l (fsub 1 (stop_loss_pct self)))))
          \<and> row_action row = Buy \<and> row_difference row = fsub p l \<and> st = Running))"
  using assms
  by (auto simp: buy_flow_def buy_volume_def get_balance_def Let_def
      split: prod.splits if_splits sum.splits option.splits
      dest!: place_order_events place_stop_loss_events log_trade_events)

lemma sell_flow_shape:
  assumes "sell_flow api self p l w = (st, es, self', w')"
  shows "\<exists>b.
      (es = [Query_Balance b] \<and> st = Running)
    \<or> (error b = [] \<and> (\<exists>r resp. es = [Query_Balance b, AddOrder r resp]
          \<and> order_ordertype r = Market \<and> order_side r = Sell \<and> \<not> accepted resp
          \<and> st = Running))
    \<or> (error b = [] \<and> (\<exists>r resp b2 row.
          es = [Query_Balance b, AddOrder r resp, Query_Balance b2, Csv_row row]
          \<and> order_ordertype r = Market \<and> order_side r = Sell \<and> accepted resp
          \<and> row_action row = Sell \<and> row_difference row = fsub p l \<and> st = Running))"
  using assms
  by (auto simp: sell_flow_def sell_volume_def get_balance_def Let_def dust_not_neg
      split: prod.splits if_splits sum.splits option.splits
      dest!: place_order_events log_trade_events)

lemma run_cycle_shape:
  assumes "run_cycle api self w = (st, es, self', w')"
      and "query_OHLC api (pair self) 1 w = (ohlc, w0)"
  shows
     "(error ohlc \<noteq> [] \<and> st = Returned \<and> es = [Query_OHLC (pair self) 1 ohlc]
         \<and> self' = self \<and> w' = w0)
    \<or> (error ohlc = [] \<and>
        (\<exists>data p l fes. data = slice_from (- lookback self) (result ohlc)
           \<and> p = arima_forecast api (map bar_close data) \<and> l = bar_close (last data)
           \<and> es = Query_OHLC (pair self) 1 ohlc # Forecast (map bar_close data) # fes
           \<and> ((data = [] \<and> fes = [] \<and> st = Raised IndexError)
             \<or> (data \<noteq> [] \<and> fes = [Sleep 3600] \<and> st = Running)
             \<or> (data \<noteq> [] \<and>
                  (\<exists>bes. buy_flow api self p l w0 = (st, bes, self', w')
                     \<and> fes = bes @ (if st = Running then [Sleep 3600] else [])))
             \<or> (data \<noteq> [] \<and>
                  (\<exists>ses. sell_flow api self p l w0 = (st, ses, self', w')
                     \<and> fes = ses @ (if st = Running then [Sleep 3600] else []))))))"
  using assms
  by (auto simp: run_cycle_def fetch_data_def calculate_arima_def Let_def
      split: prod.splits if_splits status.splits)

text \<open>Every list of events a pass can produce.\<close>

lemma run_cycle_events:
  assumes "run_cycle api self w = (st, es, self', w')"
      and "query_OHLC api (pair self) 1 w = (ohlc, w0)"
  shows "(es = [Query_OHLC (pair self) 1 ohlc] \<and> error ohlc \<noteq> [] \<and> st = Returned)
    \<or> (\<exists>tl. es = Query_OHLC (pair self) 1 ohlc
                 # Forecast (map bar_close (slice_from (- lookback self) (result ohlc))) # tl
         \<and> error ohlc = []
         \<and> (tl = [] \<or> tl = [Sleep 3600]
           \<or> (\<exists>b. tl = [Query_Balance b] \<or> tl = [Query_Balance b, Sleep 3600])
           \<or> (\<exists>b r resp. error b = [] \<and> order_ordertype r = Market \<and> \<not> accepted resp
                 \<and> tl = [Query_Balance b, AddOrder r resp, Sleep 3600])
           \<or> (\<exists>b r resp sr sresp b2 row. error b = [] \<and> order_ordertype r = Market
                 \<and> order_side r = Buy \<and> accepted resp
                 \<and> order_ordertype sr = Stop_loss \<and> order_side sr = Sell
                 \<and> order_volume sr = order_volume r
                 \<and> order_price sr =
                     Some (round1 (round1 (fmul (bar_close (last (result ohlc)))
                                                (fsub 1 (stop_loss_pct self)))))
                 \<and> row_action row = Buy
                 \<and> tl = [Query_Balance b, AddOrder r resp, AddOrder sr sresp,
                          Query_Balance b2, Csv_row row, Sleep 3600])
           \<or> (\<exists>b r resp b2 row. error b = [] \<and> order_ordertype r = Market
                 \<and> order_side r = Sell \<and> accepted resp \<and> row_action row = Sell
                 \<and> tl = [Query_Balance b, AddOrder r resp,
                          Query_Balance b2, Csv_row row, Sleep 3600])))"
  apply (insert run_cycle_shape [OF assms])
  apply (elim exE conjE disjE)
      apply simp
     apply simp
    apply simp
   apply (drule buy_flow_shape, elim exE conjE disjE,
      simp_all add: slice_from_last split: if_splits)[1]
  apply (drule sell_flow_shape, elim exE conjE disjE, simp_all split: if_splits)
  done

lemma run_add:
  "run (k + m) api self w =
     (case run k api self w of
        (Running, es, self1, w1) \<Rightarrow>
          (case run m api self1 w1 of (st, es', self2, w2) \<Rightarrow> (st, es @ es', self2, w2))
      | r \<Rightarrow> r)"
proof (induction k arbitrary: self w)
  case 0
  show ?case by (simp split: prod.splits)
next
  case (Suc k)
  show ?case
    by (auto simp: Suc split: prod.splits status.splits)
qed

section \<open>The claims\<close>

text \<open>
  Claim C1 (signal classification). As stated it fails just above the threshold: with a last
  close of \<^verbatim>\<open>1e-15\<close> and a forecast of \<^verbatim>\<open>15.000000000000002\<close> the forecast is above the
  last close and their difference is above 15, but the binary64 subtraction returns exactly 15
  and the pass does nothing but sleep.
\<close>

theorem held_just_above_threshold:
  "fl (1 / 10 ^ 15) < fl (15000000000000002 / 10 ^ 15) \<and>
   15 < fl (15000000000000002 / 10 ^ 15) - fl (1 / 10 ^ 15) \<and>
   run_cycle (sim_exchange (history [candle (fl (1 / 10 ^ 15))]) funded fills
                (fl (15000000000000002 / 10 ^ 15))) default_bot 0 =
     (Running,
      [Query_OHLC ''XXBTZUSD'' 1 (Response [] [candle (fl (1 / 10 ^ 15))]),
       Forecast [fl (1 / 10 ^ 15)], Sleep 3600],
      default_bot, 1)"
  by code_simp

text \<open>
  Claim C1, as the code has it. In a pass that fetched a non-empty window, with \<open>forecast\<close>
  the price returned by the forecaster and \<open>last_close\<close> the last closing price of the
  window: if \<open>forecast\<close> and \<open>last_close\<close> differ by at most \<open>15 + 2 ^ - 50\<close> (in particular by
  at most 15), the pass holds: it queries nothing more, and sleeps. If \<open>forecast\<close> exceeds
  \<open>last_close\<close> by more than \<open>15 + 2 ^ - 50\<close>, the pass is the buy branch. If \<open>last_close\<close>
  exceeds \<open>forecast\<close> by more than \<open>15 + 2 ^ - 50\<close>, the pass is the sell branch. The margin
  \<open>2 ^ - 50\<close> is half the distance from 15 to the next binary64 number.
\<close>

theorem cycle_signal:
  assumes "query_OHLC api (pair self) 1 w = (ohlc, w0)" and "error ohlc = []"
      and "slice_from (- lookback self) (result ohlc) = data" and "data \<noteq> []"
      and "arima_forecast api (map bar_close data) = forecast"
      and "bar_close (last data) = last_close"
  shows "(\<bar>forecast - last_close\<bar> \<le> 15 + 1 / 2 ^ 50 \<longrightarrow>
            run_cycle api self w =
              (Running,
               [Query_OHLC (pair self) 1 ohlc, Forecast (map bar_close data), Sleep 3600],
               self, w0)) \<and>
         (15 + 1 / 2 ^ 50 < forecast - last_close \<longrightarrow>
            run_cycle api self w =
              (case buy_flow api self forecast last_close w0 of
                 (st, es, self', w') \<Rightarrow>
                   (st, Query_OHLC (pair self) 1 ohlc # Forecast (map bar_close data) # es
                          @ (if st = Running then [Sleep 3600] else []), self', w'))) \<and>
         (15 + 1 / 2 ^ 50 < last_close - forecast \<longrightarrow>
            run_cycle api self w =
              (case sell_flow api self forecast last_close w0 of
                 (st, es, self', w') \<Rightarrow>
                   (st, Query_OHLC (pair self) 1 ohlc # Forecast (map bar_close data) # es
                          @ (if st = Running then [Sleep 3600] else []), self', w')))"
proof -
  have fetch: "fetch_data api self w =
      (Some (result ohlc), [Query_OHLC (pair self) 1 ohlc], w0)"
    using assms(1,2) by (simp add: fetch_data_def)
  have arima: "calculate_arima api data = (forecast, [Forecast (map bar_close data)])"
    using assms(5) by (simp add: calculate_arima_def Let_def)
  have hold: "\<not> 15 < \<bar>fsub forecast last_close\<bar>"
    if "\<bar>forecast - last_close\<bar> \<le> 15 + 1 / 2 ^ 50"
    using that abs_fl_le_15_iff [of "forecast - last_close"] by (simp add: fsub_def)
  have buy: "15 < \<bar>fsub forecast last_close\<bar> \<and> last_close < forecast"
    if "15 + 1 / 2 ^ 50 < forecast - last_close"
  proof -
    have "\<not> \<bar>forecast - last_close\<bar> \<le> 15 + 1 / 2 ^ 50"
      using that by linarith
    then have "15 < \<bar>fsub forecast last_close\<bar>"
      using abs_fl_le_15_iff [of "forecast - last_close"] by (simp add: fsub_def)
    moreover have "(0::rat) < 15 + 1 / 2 ^ 50"
      by simp
    then have "last_close < forecast"
      using that by linarith
    ultimately show ?thesis ..
  qed
  have sell: "15 < \<bar>fsub forecast last_close\<bar> \<and> forecast < last_close"
    if "15 + 1 / 2 ^ 50 < last_close - forecast"
  proof -
    have "\<not> \<bar>forecast - last_close\<bar> \<le> 15 + 1 / 2 ^ 50"
      using that by linarith
    then have "15 < \<bar>fsub forecast last_close\<bar>"
      using abs_fl_le_15_iff [of "forecast - last_close"] by (simp add: fsub_def)
    moreover have "(0::rat) < 15 + 1 / 2 ^ 50"
      by simp
    then have "forecast < last_close"
      using that by linarith
    ultimately show ?thesis ..
  qed
  show ?thesis
  proof (intro conjI impI)
    assume "\<bar>forecast - last_close\<bar> \<le> 15 + 1 / 2 ^ 50"
    from hold [OF this] show "run_cycle api self w =
        (Running, [Query_OHLC (pair self) 1 ohlc, Forecast (map bar_close data), Sleep 3600],
         self, w0)"
      using assms(3,4,6) by (simp add: run_cycle_def fetch arima Let_def)
  next
    assume "15 + 1 / 2 ^ 50 < forecast - last_close"
    from buy [OF this] show "run_cycle api self w =
        (case buy_flow api self forecast last_close w0 of
           (st, es, self', w') \<Rightarrow>
             (st, Query_OHLC (pair self) 1 ohlc # Forecast (map bar_close data) # es
                    @ (if st = Running then [Sleep 3600] else []), self', w'))"
      using assms(3,4,6)
      by (auto simp: run_cycle_def fetch arima Let_def split: prod.splits status.splits)
  next
    assume "15 + 1 / 2 ^ 50 < last_close - forecast"
    from sell [OF this] show "run_cycle api self w =
        (case sell_flow api self forecast last_close w0 of
           (st, es, self', w') \<Rightarrow>
             (st, Query_OHLC (pair self) 1 ohlc # Forecast (map bar_close data) # es
                    @ (if st = Running then [Sleep 3600] else []), self', w'))"
      using assms(3,4,6)
      by (auto simp: run_cycle_def fetch arima Let_def split: prod.splits status.splits)
  qed
qed

theorem cycle_signal_witness:
  "run_cycle (sim_exchange (history [candle 100]) funded fills 108) default_bot 0 =
     (Running,
      [Query_OHLC ''XXBTZUSD'' 1 (Response [] [candle 100]), Forecast [100], Sleep 3600],
      default_bot, 1) \<and>
   csv_rows (fst (snd
     (run_cycle (sim_exchange (history [candle 100]) funded fills 120) default_bot 0))) =
   csv_rows (fst (snd
     (buy_flow (sim_exchange (history [candle 100]) funded fills 120) default_bot 120 100 1))) \<and>
   csv_rows (fst (snd
     (run_cycle (sim_exchange (history [candle 100]) funded fills 80) default_bot 0))) =
   csv_rows (fst (snd
     (sell_flow (sim_exchange (history [candle 100]) funded fills 80) default_bot 80 100 1)))"
proof -
  let ?ohlc = "Response [] [candle 100]"
  have e: "error ?ohlc = []"
    by simp
  have d: "slice_from (- lookback default_bot) (result ?ohlc) = [candle 100]"
    by (simp add: slice_from_def default_bot_def)
  have n: "[candle 100] \<noteq> []"
    by simp
  have l: "bar_close (last [candle 100]) = 100"
    by (simp add: candle_def)
  have q: "query_OHLC (sim_exchange (history [candle 100]) funded fills fc) (pair default_bot) 1 0
      = (?ohlc, 1)" for fc
    by (simp add: sim_exchange_def history_def)
  have f: "arima_forecast (sim_exchange (history [candle 100]) funded fills fc)
      (map bar_close [candle 100]) = fc" for fc
    by (simp add: sim_exchange_def)
  have hold: "\<bar>108 - 100\<bar> \<le> (15 + 1 / 2 ^ 50 :: rat)"
    by simp
  have buy: "15 + 1 / 2 ^ 50 < (120 - 100 :: rat)"
    by simp
  have sell: "15 + 1 / 2 ^ 50 < (100 - 80 :: rat)"
    by simp
  from cycle_signal [OF q e d n f l, of 108] hold
  have 1: "run_cycle (sim_exchange (history [candle 100]) funded fills 108) default_bot 0 =
     (Running, [Query_OHLC ''XXBTZUSD'' 1 ?ohlc, Forecast [100], Sleep 3600], default_bot, 1)"
    by (simp add: candle_def default_bot_def)
  from cycle_signal [OF q e d n f l, of 120] buy
  have 2: "run_cycle (sim_exchange (history [candle 100]) funded fills 120) default_bot 0 =
     (case buy_flow (sim_exchange (history [candle 100]) funded fills 120) default_bot 120 100 1
      of (st, es, self', w') \<Rightarrow>
           (st, Query_OHLC (pair default_bot) 1 ?ohlc # Forecast (map bar_close [candle 100]) # es
                  @ (if st = Running then [Sleep 3600] else []), self', w'))"
    by blast
  from cycle_signal [OF q e d n f l, of 80] sell
  have 3: "run_cycle (sim_exchange (history [candle 100]) funded fills 80) default_bot 0 =
     (case sell_flow (sim_exchange (history [candle 100]) funded fills 80) default_bot 80 100 1
      of (st, es, self', w') \<Rightarrow>
           (st, Query_OHLC (pair default_bot) 1 ?ohlc # Forecast (map bar_close [candle 100]) # es
                  @ (if st = Running then [Sleep 3600] else []), self', w'))"
    by blast
  show ?thesis
    unfolding 1 2 3 by (simp add: reads_append split: prod.splits)
qed

text \<open>
  Claim C2 (buy sizing). The bound on the cost fails as stated: with the default cap of 33, a
  last close of \<^verbatim>\<open>32788.73\<close> and a balance of 50, the volume of the buy is the binary64
  quotient \<^verbatim>\<open>33 / 32788.73\<close>; its exact product with the last close is above 33, and so is
  the expenditure written to the CSV file, \<open>33 + 2 ^ - 47\<close>. The bound on the volume fails
  in the same way: with a last close of 3 and a balance of 10, the volume of the buy is the
  binary64 quotient \<^verbatim>\<open>10 / 3\<close>, which is above a third of ten.
\<close>

theorem buy_cost_above_cap:
  "max_usd_per_order default_bot = 33 \<and>
   map (order_volume \<circ> fst) (market_orders (fst (snd
      (run_cycle (sim_exchange (history [candle (fl (3278873 / 100))]) funded fills 32900)
         default_bot 0)))) = [4641400829129515 / 4611686018427387904] \<and>
   33 < 4641400829129515 / 4611686018427387904 * fl (3278873 / 100) \<and>
   map row_expenditure (csv_rows (fst (snd
      (run_cycle (sim_exchange (history [candle (fl (3278873 / 100))]) funded fills 32900)
         default_bot 0)))) = [4644337115725825 / 140737488355328] \<and>
   (33::rat) < 4644337115725825 / 140737488355328 \<and>
   map (order_volume \<circ> fst) (market_orders (fst (snd
      (run_cycle (sim_exchange (history [candle 3]) (balances 10 2) fills 20)
         default_bot 0)))) = [7505999378950827 / 2251799813685248] \<and>
   (10::rat) / 3 < 7505999378950827 / 2251799813685248"
  by code_simp

text \<open>
  Claim C2, as the code has it. In the buy branch, with a positive last close and \<open>usd\<close> the
  balance that the branch fetched: let \<open>v\<close> be the smaller of the binary64 quotients
  \<open>max_usd_per_order / last_close\<close> and \<open>usd / last_close\<close>, a finite number. If \<open>usd\<close> is
  positive and \<open>v\<close> is above the dust threshold, exactly one market order is submitted, a buy
  of volume \<open>v\<close>; its cost \<open>v * last_close\<close> exceeds \<open>max_usd_per_order\<close> by at most one part
  in \<open>2 ^ 53\<close>, and \<open>v\<close> exceeds \<open>usd / last_close\<close> by at most one part in \<open>2 ^ 53\<close>. Otherwise
  (\<open>usd \<le> 0\<close>, or \<open>v\<close> at most the dust threshold) no order at all is submitted.
\<close>

theorem buy_sizing:
  assumes "0 < last_close"
      and "get_balance api w = ((usd, btc), es1, w1)"
      and "buy_flow api self predicted_price last_close w = (st, es, self', w')"
      and "min (fdiv (max_usd_per_order self) last_close) (fdiv usd last_close) < 2 ^ 1024"
  shows "let v = min (fdiv (max_usd_per_order self) last_close) (fdiv usd last_close) in
     (if 0 < usd \<and> dust < v
      then map fst (market_orders es) =
             [\<lparr>order_pair = pair self, order_side = Buy, order_ordertype = Market,
               order_price = None, order_volume = v\<rparr>]
           \<and> v * last_close \<le> max_usd_per_order self * (1 + 1 / 2 ^ 53)
           \<and> v \<le> usd / last_close * (1 + 1 / 2 ^ 53)
      else market_orders es = [] \<and> stop_orders es = [])"
proof -
  define v where "v = min (fdiv (max_usd_per_order self) last_close) (fdiv usd last_close)"
  have orders: "if 0 < usd \<and> dust < v
      then map fst (market_orders es) =
             [\<lparr>order_pair = pair self, order_side = Buy, order_ordertype = Market,
               order_price = None, order_volume = v\<rparr>]
      else market_orders es = [] \<and> stop_orders es = []"
    using assms(1-3) unfolding v_def
    by (auto simp: buy_flow_def buy_volume_def Let_def reads_append
        split: prod.splits if_splits
        dest!: get_balance_events place_order_events place_stop_loss_events log_trade_events)
  have v: "v \<le> fl (max_usd_per_order self / last_close)" "v \<le> fl (usd / last_close)"
    by (simp_all add: v_def fdiv_def)
  have "v * last_close \<le> max_usd_per_order self * (1 + 1 / 2 ^ 53)"
       "v \<le> usd / last_close * (1 + 1 / 2 ^ 53)" if "dust < v"
  proof -
    show "v * last_close \<le> max_usd_per_order self * (1 + 1 / 2 ^ 53)"
      using assms(1) that v(1) by (rule buy_cost)
    have "dust < fl (usd / last_close)"
      using that v(2) by linarith
    then have "fl (usd / last_close) \<le> usd / last_close * (1 + 1 / 2 ^ 53)"
      by (rule fl_above_dust)
    with v(2) show "v \<le> usd / last_close * (1 + 1 / 2 ^ 53)"
      by linarith
  qed
  with orders show ?thesis
    unfolding v_def [symmetric] by (simp add: Let_def)
qed

theorem buy_sizing_witness:
  "map fst (market_orders (fst (snd
      (buy_flow (sim_exchange (history [candle 100]) funded fills 120) default_bot 120 100 1))))
   = [\<lparr>order_pair = ''XXBTZUSD'', order_side = Buy, order_ordertype = Market,
        order_price = None, order_volume = fdiv 33 100\<rparr>]"
proof -
  let ?api = "sim_exchange (history [candle 100]) funded fills 120"
  have h1: "(0::rat) < 100"
    by simp
  have h2: "get_balance ?api 1 = ((50, 2), [Query_Balance (funded 1)], 2)"
    by (simp add: sim_exchange_def funded_def get_balance_def dict_get_def)
  obtain st es s' w' where h3: "buy_flow ?api default_bot 120 100 1 = (st, es, s', w')"
    using prod_cases4 by blast
  have v: "min (fdiv (max_usd_per_order default_bot) 100) (fdiv 50 100) = fdiv 33 100"
          "dust < fdiv 33 100" "fdiv 33 100 < 2 ^ 1024"
    by code_simp+
  have h4: "min (fdiv (max_usd_per_order default_bot) 100) (fdiv 50 100) < 2 ^ 1024"
    unfolding v(1) by (rule v(3))
  from buy_sizing [OF h1 h2 h3 h4] show ?thesis
    unfolding h3 v(1) using v(2) by (simp add: default_bot_def Let_def)
qed



text \<open>
  Claim C4 (a record iff the primary order was accepted). In every pass of the loop at most
  one market order is submitted; the number of rows written is one if that order was
  accepted and zero otherwise (no order, or a rejected one); and whenever a stop-loss order
  was submitted, whatever the answer to it, exactly one row, of a buy, is written.
\<close>

theorem record_iff_primary_accepted:
  assumes "run_cycle api self w = (st, es, self', w')"
  shows "length (market_orders es) \<le> 1 \<and>
     length (csv_rows es) =
       (if \<exists>(r, resp) \<in> set (market_orders es). accepted resp then 1 else 0) \<and>
     (\<forall>(sr, sresp) \<in> set (stop_orders es). \<exists>row. csv_rows es = [row] \<and> row_action row = Buy)"
  using run_cycle_events [OF assms surjective_pairing]
  by (elim exE conjE disjE) simp_all

theorem record_iff_primary_accepted_witness:
  "map (accepted \<circ> snd) (stop_orders (fst (snd
      (run_cycle (sim_exchange (history [candle 100]) funded fills_market_only 120)
         default_bot 0)))) = [False] \<and>
   length (csv_rows (fst (snd
      (run_cycle (sim_exchange (history [candle 100]) funded fills_market_only 120)
         default_bot 0)))) = 1 \<and>
   length (csv_rows (fst (snd
      (run_cycle (sim_exchange (history [candle 100]) funded rejects 120)
         default_bot 0)))) = 0"
proof -
  let ?api = "sim_exchange (history [candle 100]) funded fills_market_only 120"
  let ?api' = "sim_exchange (history [candle 100]) funded rejects 120"
  obtain st es s' w' where h: "run_cycle ?api default_bot 0 = (st, es, s', w')"
    using prod_cases4 by blast
  obtain st2 es2 s2 w2 where h2: "run_cycle ?api' default_bot 0 = (st2, es2, s2, w2)"
    using prod_cases4 by blast
  have "map snd (market_orders (fst (snd (run_cycle ?api default_bot 0))))
          = [fills_market_only Market]"
       "map snd (stop_orders (fst (snd (run_cycle ?api default_bot 0))))
          = [fills_market_only Stop_loss]"
       "map snd (market_orders (fst (snd (run_cycle ?api' default_bot 0)))) = [rejects Market]"
    by code_simp+
  then have m: "map snd (market_orders es) = [fills_market_only Market]"
               "map snd (stop_orders es) = [fills_market_only Stop_loss]"
    and m2: "map snd (market_orders es2) = [rejects Market]"
    unfolding h h2 by simp_all
  from record_iff_primary_accepted [OF h] m
  have "length (csv_rows es) = 1"
    by (auto simp: accepted_def split: if_splits)
  moreover from record_iff_primary_accepted [OF h2] m2
  have "length (csv_rows es2) = 0"
    by (auto simp: accepted_def rejects_def split: if_splits)
  moreover from m have "map (accepted \<circ> snd) (stop_orders es) = [False]"
    by (auto simp: accepted_def)
  ultimately show ?thesis
    unfolding h h2 by simp
qed

text \<open>
  Claim C5 (the recorded difference is absolute). \<^verbatim>\<open>log_trade\<close> computes the difference
  again, without \<^verbatim>\<open>abs\<close>: with a last close of 100, a forecast of 80 and an accepted sell,
  the row written has difference \<open>-20\<close>, while the absolute difference is 20.
\<close>

theorem sell_row_difference_is_signed:
  "map row_difference (csv_rows (fst (snd
      (run_cycle (sim_exchange (history [candle 100]) funded fills 80) default_bot 0))))
   = [- 20] \<and> \<bar>80 - 100\<bar> = (20::rat)"
  by code_simp

text \<open>
  Claim C6 (the window has length exactly \<open>lookback\<close>). It fails when the exchange returns
  fewer entries than \<open>lookback\<close>: with the default \<open>lookback\<close> of 50 and a history of three
  entries, the forecaster is called on a window of length three.
\<close>

theorem window_shorter_than_lookback:
  "lookback default_bot = 50 \<and>
   map length (forecast_windows (fst (snd
      (run_cycle (sim_exchange (history [candle 100, candle 101, candle 102]) funded fills 108)
         default_bot 0)))) = [3]"
  by code_simp

text \<open>
  Claim C6, as the code has it. With a positive \<open>lookback\<close>, in a pass whose price-history
  query succeeded, the forecaster is called exactly once, on the closing prices of the last
  \<open>lookback\<close> entries of the history, or of all of them when there are fewer: the length of
  the window is the smaller of \<open>lookback\<close> and the length of the history (so exactly
  \<open>lookback\<close> when the history is at least that long), and every price in it is a closing
  price that the exchange returned.
\<close>

theorem window_is_lookback_suffix:
  assumes "run_cycle api self w = (st, es, self', w')"
      and "query_OHLC api (pair self) 1 w = (ohlc, w0)"
      and "error ohlc = []"
      and "0 < lookback self"
  shows "forecast_windows es =
           [map bar_close (drop (length (result ohlc) - nat (lookback self)) (result ohlc))] \<and>
         (\<forall>xs \<in> set (forecast_windows es).
            length xs = min (nat (lookback self)) (length (result ohlc)) \<and>
            set xs \<subseteq> bar_close ` set (result ohlc))"
proof -
  have "forecast_windows es = [map bar_close (slice_from (- lookback self) (result ohlc))]"
    using run_cycle_events [OF assms(1,2)] assms(3)
    by (elim exE conjE disjE) simp_all
  then have *: "forecast_windows es =
      [map bar_close (drop (length (result ohlc) - nat (lookback self)) (result ohlc))]"
    using assms(4) by (simp add: slice_from_lookback)
  moreover have "set (drop n (result ohlc)) \<subseteq> set (result ohlc)" for n
    by (rule set_drop_subset)
  ultimately show ?thesis
    by (auto simp: min_def)
qed

theorem window_is_lookback_suffix_witness:
  "forecast_windows (fst (snd
      (run_cycle (sim_exchange (history [candle 100, candle 101, candle 102]) funded fills 108)
         (default_bot\<lparr>lookback := 2\<rparr>) 0))) = [[101, 102]] \<and>
   forecast_windows (fst (snd
      (run_cycle (sim_exchange (history [candle 100, candle 101, candle 102]) funded fills 108)
         default_bot 0))) = [[100, 101, 102]]"
proof -
  let ?api = "sim_exchange (history [candle 100, candle 101, candle 102]) funded fills 108"
  let ?ohlc = "Response [] [candle 100, candle 101, candle 102]"
  have q: "query_OHLC ?api (pair (default_bot\<lparr>lookback := 2\<rparr>)) 1 0 = (?ohlc, 1)"
          "query_OHLC ?api (pair default_bot) 1 0 = (?ohlc, 1)"
    by (simp_all add: sim_exchange_def history_def)
  have e: "error ?ohlc = []"
    by simp
  have l: "0 < lookback (default_bot\<lparr>lookback := 2\<rparr>)" "0 < lookback default_bot"
    by (simp_all add: default_bot_def)
  obtain st es s' w' where
    h: "run_cycle ?api (default_bot\<lparr>lookback := 2\<rparr>) 0 = (st, es, s', w')"
    using prod_cases4 by blast
  obtain st2 es2 s2 w2 where h2: "run_cycle ?api default_bot 0 = (st2, es2, s2, w2)"
    using prod_cases4 by blast
  from window_is_lookback_suffix [OF h q(1) e l(1)]
       window_is_lookback_suffix [OF h2 q(2) e l(2)]
  show ?thesis
    unfolding h h2 by (simp add: candle_def default_bot_def)
qed

text \<open>
  Claim C7 (stop price). Read on the exact product it fails: with a last close of 100.5 and
  the default \<^verbatim>\<open>stop_loss_pct=0.10\<close>, the exact value of \<open>last_close * (1 - stop_loss_pct)\<close>
  is within 0.05 of 90.4, but the two binary64 roundings of the code lift it above 90.45
  and the stop-loss order carries 90.5.
\<close>

theorem stop_price_off_the_exact_product:
  "map (order_price \<circ> fst) (stop_orders (fst (snd
      (run_cycle (sim_exchange (history [candle (201 / 2)]) funded fills 120)
         default_bot 0)))) = [Some (181 / 2)] \<and>
   \<bar>201 / 2 * (1 - stop_loss_pct default_bot) - 904 / 10\<bar> < 1 / 20"
  by code_simp

text \<open>
  Claim C7, as the code has it. Every stop-loss order submitted in a pass carries the price
  \<open>round1 x\<close>, where \<open>x\<close> is the binary64 product of \<open>last_close\<close>, the closing price of the
  last entry of the fetched history, and the binary64 difference \<open>1 - stop_loss_pct\<close>; the
  second rounding in \<^verbatim>\<open>place_stop_loss\<close> changes nothing. This price is the binary64 number
  nearest to a whole number of tenths that differs from \<open>x\<close> by at most 0.05.
\<close>

theorem stop_price_formula:
  assumes "run_cycle api self w = (st, es, self', w')"
      and "query_OHLC api (pair self) 1 w = (ohlc, w0)"
      and "(sr, sresp) \<in> set (stop_orders es)"
  shows "let x = fmul (bar_close (last (result ohlc))) (fsub 1 (stop_loss_pct self)) in
           order_price sr = Some (round1 x) \<and>
           (\<exists>k::int. round1 x = fl (of_int k / 10) \<and> \<bar>of_int k / 10 - x\<bar> \<le> 1 / 20)"
proof -
  have "order_price sr =
      Some (round1 (round1 (fmul (bar_close (last (result ohlc))) (fsub 1 (stop_loss_pct self)))))"
    using run_cycle_events [OF assms(1,2)] assms(3)
    by (elim exE conjE disjE) auto
  then show ?thesis
    using round1_tenth by (simp add: Let_def round1_idem)
qed

theorem stop_price_formula_witness:
  "map (order_price \<circ> fst) (stop_orders (fst (snd
      (run_cycle (sim_exchange (history [candle (803 / 8)]) funded fills 120)
         default_bot 0)))) = [Some (fl (903 / 10))]"
proof -
  let ?api = "sim_exchange (history [candle (803 / 8)]) funded fills 120"
  let ?ohlc = "Response [] [candle (803 / 8)]"
  have q: "query_OHLC ?api (pair default_bot) 1 0 = (?ohlc, 1)"
    by (simp add: sim_exchange_def history_def)
  obtain st es s' w' where h: "run_cycle ?api default_bot 0 = (st, es, s', w')"
    using prod_cases4 by blast
  have "map snd (stop_orders (fst (snd (run_cycle ?api default_bot 0)))) = [fills Stop_loss]"
    by code_simp
  then have "map snd (stop_orders es) = [fills Stop_loss]"
    unfolding h by simp
  then obtain sr where m: "stop_orders es = [(sr, fills Stop_loss)]"
    by auto
  then have "(sr, fills Stop_loss) \<in> set (stop_orders es)"
    by simp
  moreover have "round1 (fmul (803 / 8) (fsub 1 (stop_loss_pct default_bot))) = fl (903 / 10)"
    by code_simp
  ultimately have "order_price sr = Some (fl (903 / 10))"
    using stop_price_formula [OF h q]
    by (simp add: candle_def Let_def)
  with m show ?thesis
    unfolding h by simp
qed

text \<open>
  Claim C8 (a failed balance query fails closed). A balance query answered with an error
  yields the balances \<open>(0, 0)\<close>. In a pass whose first balance query (the one that feeds the
  sizing) is answered with an error, no market order and no stop-loss order is submitted and
  no row is written. And after any balance query of a pass that is answered with an error,
  no order is submitted in that pass.
\<close>

theorem balance_failure_fails_closed:
  assumes "run_cycle api self w = (st, es, self', w')"
  shows "(\<forall>w1 b w2. query_Balance api w1 = (b, w2) \<and> error b \<noteq> []
            \<longrightarrow> fst (get_balance api w1) = (0, 0)) \<and>
         (balance_queries es \<noteq> [] \<and> error (hd (balance_queries es)) \<noteq> []
            \<longrightarrow> market_orders es = [] \<and> stop_orders es = [] \<and> csv_rows es = []) \<and>
         (\<forall>pre b post. es = pre @ Query_Balance b # post \<and> error b \<noteq> []
            \<longrightarrow> market_orders post = [] \<and> stop_orders post = [])"
proof (intro conjI)
  show "\<forall>w1 b w2. query_Balance api w1 = (b, w2) \<and> error b \<noteq> []
            \<longrightarrow> fst (get_balance api w1) = (0, 0)"
    by (simp add: get_balance_def)
  show "balance_queries es \<noteq> [] \<and> error (hd (balance_queries es)) \<noteq> []
            \<longrightarrow> market_orders es = [] \<and> stop_orders es = [] \<and> csv_rows es = []"
    using run_cycle_events [OF assms surjective_pairing]
    by (elim exE conjE disjE) simp_all
  show "\<forall>pre b post. es = pre @ Query_Balance b # post \<and> error b \<noteq> []
            \<longrightarrow> market_orders post = [] \<and> stop_orders post = []"
    using run_cycle_events [OF assms surjective_pairing]
    by (elim exE conjE disjE) (auto simp: Cons_eq_append_conv)
qed

theorem balance_failure_fails_closed_witness:
  "fst (get_balance (sim_exchange (history [candle 100]) (funded_before 0) fills 120) 1) = (0, 0)
   \<and> market_orders (fst (snd
      (run_cycle (sim_exchange (history [candle 100]) (funded_before 0) fills 120)
         default_bot 0))) = []"
proof -
  let ?api = "sim_exchange (history [candle 100]) (funded_before 0) fills 120"
  obtain st es s' w' where h: "run_cycle ?api default_bot 0 = (st, es, s', w')"
    using prod_cases4 by blast
  have q: "query_Balance ?api 1 = (funded_before 0 1, 2) \<and> error (funded_before 0 1) \<noteq> []"
    by (simp add: sim_exchange_def funded_before_def)
  have "fst (snd (run_cycle ?api default_bot 0)) =
      [Query_OHLC ''XXBTZUSD'' 1 (Response [] [candle 100]), Forecast [100],
       Query_Balance (funded_before 0 1), Sleep 3600]"
    by code_simp
  then have es: "es = [Query_OHLC ''XXBTZUSD'' 1 (Response [] [candle 100]), Forecast [100]]
      @ Query_Balance (funded_before 0 1) # [Sleep 3600]"
    unfolding h by simp
  then have b: "balance_queries es \<noteq> [] \<and> error (hd (balance_queries es)) \<noteq> []"
    by (simp add: funded_before_def)
  from balance_failure_fails_closed [OF h] q b es
  have "fst (get_balance ?api 1) = (0, 0)" "market_orders es = []"
       "market_orders [Sleep 3600] = []"
    by blast+
  then show ?thesis
    unfolding h by simp
qed

text \<open>
  Claim C9 (a failed price-history query is fatal). If, after \<open>k\<close> completed passes, the
  price-history query is answered with an error, then \<^verbatim>\<open>run\<close> returns, however many more
  passes it is allowed: the only event after those of the \<open>k\<close> passes is the failed query
  (no forecast, no order, no row, no sleep), and the state of the bot is unchanged.
\<close>

theorem fetch_failure_fatal:
  assumes "run k api self w = (Running, es, self1, w1)"
      and "query_OHLC api (pair self1) 1 w1 = (ohlc, w0)"
      and "error ohlc \<noteq> []"
  shows "run (k + Suc n) api self w =
           (Returned, es @ [Query_OHLC (pair self1) 1 ohlc], self1, w0)"
proof -
  have "run_cycle api self1 w1 = (Returned, [Query_OHLC (pair self1) 1 ohlc], self1, w0)"
    using assms(2,3) by (simp add: run_cycle_def fetch_data_def)
  then have last_pass: "run (Suc n) api self1 w1 =
      (Returned, [Query_OHLC (pair self1) 1 ohlc], self1, w0)"
    by simp
  have "run (k + Suc n) api self w =
      (case run k api self w of
         (Running, es, self1, w1) \<Rightarrow>
           (case run (Suc n) api self1 w1 of (st, es', self2, w2) \<Rightarrow> (st, es @ es', self2, w2))
       | r \<Rightarrow> r)"
    by (rule run_add)
  also have "\<dots> = (Returned, es @ [Query_OHLC (pair self1) 1 ohlc], self1, w0)"
    by (simp add: assms(1) last_pass del: run.simps)
  finally show ?thesis .
qed

theorem fetch_failure_fatal_witness:
  "run (1 + Suc 3) (sim_exchange (history_once [candle 100]) funded fills 108) default_bot 0 =
     (Returned,
      [Query_OHLC ''XXBTZUSD'' 1 (Response [] [candle 100]), Forecast [100], Sleep 3600,
       Query_OHLC ''XXBTZUSD'' 1 (Response [''EService:Unavailable''] [])],
      default_bot, 2)"
proof -
  let ?api = "sim_exchange (history_once [candle 100]) funded fills 108"
  have h1: "run 1 ?api default_bot 0 =
      (Running, [Query_OHLC ''XXBTZUSD'' 1 (Response [] [candle 100]), Forecast [100],
                 Sleep 3600], default_bot, 1)"
    by code_simp
  have h2: "query_OHLC ?api (pair default_bot) 1 1 = (Response [''EService:Unavailable''] [], 2)"
    by (simp add: sim_exchange_def history_once_def)
  have h3: "error (Response [''EService:Unavailable''] [] :: bar list response) \<noteq> []"
    by simp
  from fetch_failure_fatal [OF h1 h2 h3, of 3] show ?thesis
    by (simp add: default_bot_def del: run.simps)
qed

text \<open>
  Claim C10 (the stop-loss covers the whole entry). In every pass in which a market buy is
  submitted and accepted, the next event is a stop-loss sell order of exactly the volume of
  that buy, and it is the only stop-loss order of the pass.
\<close>

theorem stop_loss_covers_entry:
  assumes "run_cycle api self w = (st, es, self', w')"
      and "(r, resp) \<in> set (market_orders es)"
      and "order_side r = Buy" and "accepted resp"
  shows "\<exists>pre sr sresp post. es = pre @ AddOrder r resp # AddOrder sr sresp # post
           \<and> order_ordertype sr = Stop_loss \<and> order_side sr = Sell
           \<and> order_volume sr = order_volume r \<and> stop_orders es = [(sr, sresp)]"
  using run_cycle_events [OF assms(1) surjective_pairing] assms(2-)
  by (elim exE conjE disjE) (auto simp: Cons_eq_append_conv)

theorem stop_loss_covers_entry_witness:
  "map (order_volume \<circ> fst) (stop_orders (fst (snd
      (run_cycle (sim_exchange (history [candle 100]) funded fills 120) default_bot 0))))
   = [fdiv 33 100]"
proof -
  let ?api = "sim_exchange (history [candle 100]) funded fills 120"
  let ?r = "\<lparr>order_pair = ''XXBTZUSD'', order_side = Buy, order_ordertype = Market,
             order_price = None, order_volume = fdiv 33 100\<rparr>"
  obtain st es s' w' where h: "run_cycle ?api default_bot 0 = (st, es, s', w')"
    using prod_cases4 by blast
  have "market_orders (fst (snd (run_cycle ?api default_bot 0))) = [(?r, fills Market)]"
    by code_simp
  then have m: "(?r, fills Market) \<in> set (market_orders es)"
    unfolding h by simp
  have s: "order_side ?r = Buy" and a: "accepted (fills Market)"
    by (simp_all add: accepted_def fills_def)
  from stop_loss_covers_entry [OF h m s a] obtain sr sresp
    where "stop_orders es = [(sr, sresp)]" "order_volume sr = order_volume ?r"
    by blast
  then show ?thesis
    unfolding h by simp
qed

end
